theory Spec2Isabelle
  imports Complex_Main "HOL-Library.Product_Lexorder" "HOL-Library.Sublist"
    "HOL-Library.Multiset" "HOL-Library.AList"
begin

section \<open>Huffman compression (assignments/a2/starter/huffman.py)\<close>

text \<open>
  Python integers are \<open>int\<close>; a \<open>bytes\<close> object is a list of integers, each in
  \<open>0..255\<close> (the constructor \<open>bytes(...)\<close> checks the range); a \<open>str\<close> of bits is a
  \<open>string\<close>; a \<open>dict\<close> is an association list in insertion order; an exception is the
  left summand of a result.
\<close>

datatype error =
  IndexError | KeyError | ValueError | TypeError | AttributeError | OverflowError
  | ZeroDivisionError | NoneReturned

subsection \<open>The node classes\<close>

text \<open>
  Modelled from the spec: the module \<open>nodes\<close> (classes \<open>HuffmanNode\<close> and \<open>ReadNode\<close>) is
  imported by huffman.py and is not among the sources. A \<open>HuffmanNode\<close> holds an optional
  symbol, a left and a right child (each possibly absent) and the number given to it by
  the postorder numbering; a reference that is \<open>None\<close> is the constructor \<open>Null\<close>.
  Structural equality of two nodes compares symbol, left and right, never the number.
\<close>

datatype node =
  Null
  | HuffmanNode (symbol: "int option") (left: node) (right: node) (number: "int option")

text \<open>
  Modelled from the spec: \<open>is_leaf\<close> of the missing module \<open>nodes\<close>: a leaf is a node
  with no children. Every call in huffman.py tests the node for \<open>None\<close> first, so the
  value at \<open>Null\<close> is never used.
\<close>

fun is_leaf :: "node \<Rightarrow> bool" where
  "is_leaf (HuffmanNode s l r k) = (l = Null \<and> r = Null)"
| "is_leaf Null = False"

text \<open>\<open>HuffmanNode.__eq__\<close>: equality up to the numbers.\<close>

fun strip :: "node \<Rightarrow> node" where
  "strip Null = Null"
| "strip (HuffmanNode s l r k) = HuffmanNode s (strip l) (strip r) None"

text \<open>
  Modelled from the spec: \<open>ReadNode\<close> of the missing module \<open>nodes\<close>, the 4-field record
  \<open>(left_type, left_value, right_type, right_value)\<close>.
\<close>

record ReadNode =
  l_type :: int
  l_data :: int
  r_type :: int
  r_data :: int

subsection \<open>Helper functions for manipulating bytes\<close>

definition get_bit :: "int \<Rightarrow> nat \<Rightarrow> int" where
  "get_bit byte bit_num = drop_bit bit_num (and byte (push_bit bit_num 1))"

text \<open>\<open>str\<close> of the integers 0 and 1, the only values of \<open>get_bit\<close>.\<close>

definition str_bit :: "int \<Rightarrow> string" where
  "str_bit b = (if b = 0 then ''0'' else ''1'')"

definition byte_to_bits :: "int \<Rightarrow> string" where
  "byte_to_bits byte = concat (map (\<lambda>bit_num. str_bit (get_bit byte bit_num)) (rev [0..<8]))"

text \<open>\<open>int(c)\<close> of a one-character string: a decimal digit, or ValueError.\<close>

definition int_of_digit :: "char \<Rightarrow> error + int" where
  "int_of_digit c =
     (let k = (of_char c :: nat)
      in if 48 \<le> k \<and> k \<le> 57 then Inr (int k - 48) else Inl ValueError)"

text \<open>
  The list comprehension of \<open>bits_to_byte\<close>, from position \<open>pos\<close> on; a negative shift
  count (position beyond 7) raises ValueError.
\<close>

fun shifted_bits :: "nat \<Rightarrow> string \<Rightarrow> error + int list" where
  "shifted_bits pos [] = Inr []"
| "shifted_bits pos (c # cs) =
     (case int_of_digit c of
        Inl e \<Rightarrow> Inl e
      | Inr d \<Rightarrow>
          if 7 < pos then Inl ValueError
          else (case shifted_bits (Suc pos) cs of
                  Inl e \<Rightarrow> Inl e
                | Inr r \<Rightarrow> Inr (push_bit (7 - pos) d # r)))"

definition bits_to_byte :: "string \<Rightarrow> error + int" where
  "bits_to_byte bits =
     (case shifted_bits 0 bits of Inl e \<Rightarrow> Inl e | Inr r \<Rightarrow> Inr (sum_list r))"

text \<open>
  The constructor \<open>bytes(l)\<close> on a list: TypeError at an element that is \<open>None\<close>,
  ValueError at an integer outside \<open>range(256)\<close>, whichever comes first.
\<close>

fun bytes :: "int option list \<Rightarrow> error + int list" where
  "bytes [] = Inr []"
| "bytes (None # xs) = Inl TypeError"
| "bytes (Some v # xs) =
     (if 0 \<le> v \<and> v < 256
      then (case bytes xs of Inl e \<Rightarrow> Inl e | Inr r \<Rightarrow> Inr (v # r))
      else Inl ValueError)"

text \<open>The subscript \<open>xs[i]\<close> of a list: an index below zero is taken from the end.\<close>

definition py_index :: "'a list \<Rightarrow> int \<Rightarrow> error + 'a" where
  "py_index xs i =
     (if 0 \<le> i \<and> i < int (length xs) then Inr (xs ! nat i)
      else if - int (length xs) \<le> i \<and> i < 0 then Inr (xs ! nat (int (length xs) + i))
      else Inl IndexError)"

subsection \<open>Functions for compression\<close>

fun make_freq_dict_loop :: "(int \<times> int) list \<Rightarrow> int list \<Rightarrow> (int \<times> int) list" where
  "make_freq_dict_loop dic [] = dic"
| "make_freq_dict_loop dic (cha # text) =
     make_freq_dict_loop
       (case map_of dic cha of
          None \<Rightarrow> AList.update cha 1 dic
        | Some c \<Rightarrow> AList.update cha (c + 1) dic) text"

definition make_freq_dict :: "int list \<Rightarrow> (int \<times> int) list" where
  "make_freq_dict text = make_freq_dict_loop [] text"

text \<open>
  The \<open>while\<close> loop of \<open>huffman_tree\<close>. Modelled from the spec: \<open>node_list.sort()\<close>
  compares \<open>(frequency, HuffmanNode)\<close> tuples, and the comparison of two nodes belongs
  to the missing module \<open>nodes\<close>; the sort is the stable sort on the frequency, nodes of
  equal frequency keeping their order.
\<close>

fun merge_loop :: "(int \<times> node) list \<Rightarrow> error + node" where
  "merge_loop (m1 # m2 # node_list) =
     merge_loop
       (sort_key fst (node_list @ [(fst m1 + fst m2, HuffmanNode None (snd m1) (snd m2) None)]))"
| "merge_loop [m] = Inr (snd m)"
| "merge_loop [] = Inl IndexError"

definition huffman_tree :: "(int \<times> int) list \<Rightarrow> error + node" where
  "huffman_tree freq_dict =
     (let item = freq_dict;
          sort_lst = sort (map (\<lambda>i. (snd i, fst i)) item);
          node_list = map (\<lambda>i. (fst i, HuffmanNode (Some (snd i)) Null Null None)) sort_lst
      in if length node_list = 1
         then Inr (HuffmanNode None (snd (node_list ! 0)) Null None)
         else merge_loop node_list)"

fun contains :: "node \<Rightarrow> int option \<Rightarrow> bool" where
  "contains Null v = False"
| "contains (HuffmanNode s l r k) v = (s = v \<or> contains l v \<or> contains r v)"

fun get_path :: "node \<Rightarrow> int option \<Rightarrow> string" where
  "get_path Null n = '' ''"
| "get_path (HuffmanNode s l r k) n =
     (if s = n then ''''
      else if contains l n then CHR ''0'' # get_path l n
      else CHR ''1'' # get_path r n)"

definition gather_lists :: "'a list list \<Rightarrow> 'a list" where
  "gather_lists ls = foldl (@) [] ls"

fun get_leaf :: "node \<Rightarrow> int option list" where
  "get_leaf Null = []"
| "get_leaf (HuffmanNode s l r k) =
     (if is_leaf (HuffmanNode s l r k) then [s]
      else gather_lists (if r \<noteq> Null then [get_leaf r] else [])
           @ gather_lists (if l \<noteq> Null then [get_leaf l] else []))"

definition get_codes :: "node \<Rightarrow> (int option \<times> string) list" where
  "get_codes tree =
     foldl (\<lambda>dic a. AList.update a (get_path tree a) dic) [] (get_leaf tree)"

text \<open>
  \<open>number_internal\<close> writes the numbers into the tree and returns the next free number;
  the model returns the numbered tree with it.
\<close>

fun number_internal :: "node \<Rightarrow> int \<Rightarrow> node \<times> int" where
  "number_internal Null n = (Null, n)"
| "number_internal (HuffmanNode s l r k) n =
     (if \<not> is_leaf (HuffmanNode s l r k)
      then (let (l', n1) = number_internal l n;
                (r', n2) = number_internal r n1
            in (HuffmanNode s l' r' (Some n2), n2 + 1))
      else (HuffmanNode s l r k, n))"

definition number_nodes :: "node \<Rightarrow> node" where
  "number_nodes tree = fst (number_internal tree 0)"

text \<open>\<open>freq_dict[key]\<close> for a key that may be \<open>None\<close>.\<close>

definition freq_lookup :: "(int \<times> int) list \<Rightarrow> int option \<Rightarrow> error + int" where
  "freq_lookup freq_dict key =
     (case key of
        None \<Rightarrow> Inl KeyError
      | Some k \<Rightarrow> (case map_of freq_dict k of None \<Rightarrow> Inl KeyError | Some v \<Rightarrow> Inr v))"

text \<open>The loop of \<open>avg_length\<close>, with the list \<open>lst\<close> and the counter \<open>i\<close>.\<close>

fun avg_length_loop ::
  "(int \<times> int) list \<Rightarrow> (int option \<times> string) list \<Rightarrow> int list \<Rightarrow> int \<Rightarrow> error + int list \<times> int"
where
  "avg_length_loop freq_dict [] lst i = Inr (lst, i)"
| "avg_length_loop freq_dict ((key, code) # cod_dic) lst i =
     (case freq_lookup freq_dict key of
        Inl e \<Rightarrow> Inl e
      | Inr f \<Rightarrow> avg_length_loop freq_dict cod_dic (lst @ [int (length code) * f]) (i + f))"

text \<open>
  The quotient \<open>sum(lst)/i\<close> of two integers is a float in Python; the model returns the
  exact rational.
\<close>

definition avg_length :: "node \<Rightarrow> (int \<times> int) list \<Rightarrow> error + rat" where
  "avg_length tree freq_dict =
     (case avg_length_loop freq_dict (get_codes tree) [] 0 of
        Inl e \<Rightarrow> Inl e
      | Inr (lst, i) \<Rightarrow>
          if i = 0 then Inl ZeroDivisionError
          else Inr (rat_of_int (sum_list lst) / rat_of_int i))"

text \<open>\<open>codes[i]\<close> for every symbol of the text, concatenated.\<close>

fun translate :: "(int option \<times> string) list \<Rightarrow> int list \<Rightarrow> string \<Rightarrow> error + string" where
  "translate codes [] r = Inr r"
| "translate codes (i # text) r =
     (case map_of codes (Some i) of
        None \<Rightarrow> Inl KeyError
      | Some c \<Rightarrow> translate codes text (r @ c))"

text \<open>The second loop of \<open>generate_compressed\<close>: the bytes of the slices \<open>r[8*i : 8*i+8]\<close>.\<close>

fun pack_slices :: "string \<Rightarrow> nat list \<Rightarrow> error + int list" where
  "pack_slices r [] = Inr []"
| "pack_slices r (i # is) =
     (case bits_to_byte (take 8 (drop (8 * i) r)) of
        Inl e \<Rightarrow> Inl e
      | Inr b \<Rightarrow> (case pack_slices r is of Inl e \<Rightarrow> Inl e | Inr l \<Rightarrow> Inr (b # l)))"

definition generate_compressed :: "int list \<Rightarrow> (int option \<times> string) list \<Rightarrow> error + int list" where
  "generate_compressed text codes =
     (case translate codes text '''' of
        Inl e \<Rightarrow> Inl e
      | Inr r0 \<Rightarrow>
          (let reman = length r0 mod 8;
               r = r0 @ replicate (8 - reman) (CHR ''0'');
               num = length r div 8
           in case pack_slices r [0..<num] of
                Inl e \<Rightarrow> Inl e
              | Inr l \<Rightarrow> bytes (map Some l)))"

text \<open>
  \<open>tree_to_bytes\<close> returns nothing (Python's \<open>None\<close>, no bytes object) on an absent
  tree: the outcome \<open>NoneReturned\<close>. The recursive calls are made on present children only.
\<close>

fun child_record :: "node \<Rightarrow> int option list" where
  "child_record Null = []"
| "child_record (HuffmanNode s l r k) =
     (if is_leaf (HuffmanNode s l r k) then [Some 0, s] else [Some 1, k])"

fun tree_to_bytes :: "node \<Rightarrow> error + int list" where
  "tree_to_bytes Null = Inl NoneReturned"
| "tree_to_bytes (HuffmanNode s l r k) =
     (case (if l \<noteq> Null then tree_to_bytes l else Inr []) of
        Inl e \<Rightarrow> Inl e
      | Inr left_bytes \<Rightarrow>
          (case (if r \<noteq> Null then tree_to_bytes r else Inr []) of
             Inl e \<Rightarrow> Inl e
           | Inr right_bytes \<Rightarrow>
               (let lst = child_record l @ child_record r
                in case bytes lst of
                     Inl e \<Rightarrow> Inl e
                   | Inr b \<Rightarrow> Inr (left_bytes @ right_bytes @ b))))"

fun num_nodes_to_bytes :: "node \<Rightarrow> error + int list" where
  "num_nodes_to_bytes Null = Inl AttributeError"
| "num_nodes_to_bytes (HuffmanNode s l r None) = Inl TypeError"
| "num_nodes_to_bytes (HuffmanNode s l r (Some n)) = bytes [Some (n + 1)]"

text \<open>\<open>size.to_bytes(4, "little")\<close>: OverflowError outside \<open>0 .. 2^32 - 1\<close>.\<close>

definition size_to_bytes :: "int \<Rightarrow> error + int list" where
  "size_to_bytes sz =
     (if 0 \<le> sz \<and> sz < 2 ^ 32
      then Inr [sz mod 256, sz div 256 mod 256, sz div 65536 mod 256,
                sz div 16777216 mod 256]
      else Inl OverflowError)"

text \<open>
  \<open>compress\<close> from the contents of the input file to the contents of the output file;
  the printed average length is computed (it can raise) and dropped.
\<close>

definition compress :: "int list \<Rightarrow> error + int list" where
  "compress text =
     (let freq = make_freq_dict text
      in case huffman_tree freq of
           Inl e \<Rightarrow> Inl e
         | Inr tree0 \<Rightarrow>
             (let codes = get_codes tree0;
                  tree = number_nodes tree0
              in case avg_length tree freq of
                   Inl e \<Rightarrow> Inl e
                 | Inr bits_per_symbol \<Rightarrow>
                     (case num_nodes_to_bytes tree of
                        Inl e \<Rightarrow> Inl e
                      | Inr b1 \<Rightarrow>
                          (case tree_to_bytes tree of
                             Inl e \<Rightarrow> Inl e
                           | Inr b2 \<Rightarrow>
                               (case size_to_bytes (int (length text)) of
                                  Inl e \<Rightarrow> Inl e
                                | Inr b3 \<Rightarrow>
                                    (case generate_compressed text codes of
                                       Inl e \<Rightarrow> Inl e
                                     | Inr b4 \<Rightarrow> Inr (b1 @ b2 @ b3 @ b4)))))))"

subsection \<open>Functions for decompression\<close>

text \<open>
  \<open>generate_tree_general\<close> follows the references of the records and need not return
  (a record may refer to itself): the value \<open>None\<close> is "does not return". A child type
  other than 0 and 1 leaves the child absent.
\<close>

partial_function (option) generate_tree_general ::
  "ReadNode list \<Rightarrow> int \<Rightarrow> (error + node) option"
where
  "generate_tree_general node_lst root_index =
     (case py_index node_lst root_index of
        Inl e \<Rightarrow> Some (Inl e)
      | Inr root_rec \<Rightarrow>
          Option.bind
            (if l_type root_rec = 0 then Some (Inr (HuffmanNode (Some (l_data root_rec)) Null Null None))
             else if l_type root_rec = 1 then generate_tree_general node_lst (l_data root_rec)
             else Some (Inr Null))
            (\<lambda>lres. case lres of
               Inl e \<Rightarrow> Some (Inl e)
             | Inr node_left \<Rightarrow>
                 Option.bind
                   (if r_type root_rec = 0
                    then Some (Inr (HuffmanNode (Some (r_data root_rec)) Null Null None))
                    else if r_type root_rec = 1 then generate_tree_general node_lst (r_data root_rec)
                    else Some (Inr Null))
                   (\<lambda>rres. case rres of
                      Inl e \<Rightarrow> Some (Inl e)
                    | Inr node_right \<Rightarrow>
                        Some (Inr (HuffmanNode None node_left node_right None)))))"

fun count_internal :: "node \<Rightarrow> int" where
  "count_internal Null = 0"
| "count_internal (HuffmanNode s l r k) =
     (if \<not> is_leaf (HuffmanNode s l r k) then 1 + count_internal l + count_internal r else 0)"

lemma count_internal_nonneg: "0 \<le> count_internal t"
  by (induction t) auto

function generate_tree_postorder :: "ReadNode list \<Rightarrow> int \<Rightarrow> error + node" where
  "generate_tree_postorder node_lst root_index =
     (case py_index node_lst root_index of
        Inl e \<Rightarrow> Inl e
      | Inr root_rec \<Rightarrow>
          (case (if r_type root_rec = 0 then Inr (HuffmanNode (Some (r_data root_rec)) Null Null None)
                 else if r_type root_rec = 1 then generate_tree_postorder node_lst (root_index - 1)
                 else Inr Null) of
             Inl e \<Rightarrow> Inl e
           | Inr node_right \<Rightarrow>
               (case (if l_type root_rec = 0
                      then Inr (HuffmanNode (Some (l_data root_rec)) Null Null None)
                      else if l_type root_rec = 1
                      then generate_tree_postorder node_lst
                             (root_index - count_internal node_right - 1)
                      else Inr Null) of
                  Inl e \<Rightarrow> Inl e
                | Inr node_left \<Rightarrow> Inr (HuffmanNode None node_left node_right None))))"
  by pat_completeness auto
termination
proof (relation "measure (\<lambda>(node_lst, root_index). nat (root_index + int (length node_lst) + 1))")
  show "wf (measure (\<lambda>(node_lst, root_index). nat (root_index + int (length node_lst) + 1)))"
    by simp
next
  fix node_lst :: "ReadNode list" and root_index :: int and root_rec :: ReadNode
  assume "py_index node_lst root_index = Inr root_rec"
  then have "- int (length node_lst) \<le> root_index"
    by (auto simp: py_index_def Let_def split: if_splits)
  then show "((node_lst, root_index - 1), (node_lst, root_index))
      \<in> measure (\<lambda>(node_lst, root_index). nat (root_index + int (length node_lst) + 1))"
    by simp
next
  fix node_lst :: "ReadNode list" and root_index :: int and root_rec :: ReadNode and node_right :: node
  assume "py_index node_lst root_index = Inr root_rec"
  then have "- int (length node_lst) \<le> root_index"
    by (auto simp: py_index_def Let_def split: if_splits)
  moreover have "0 \<le> count_internal node_right"
    by (rule count_internal_nonneg)
  ultimately show "((node_lst, root_index - count_internal node_right - 1), (node_lst, root_index))
      \<in> measure (\<lambda>(node_lst, root_index). nat (root_index + int (length node_lst) + 1))"
    by simp
qed

text \<open>
  The second loop of \<open>generate_uncompressed\<close>, over the bit string, with the walk pointer
  \<open>temp\<close> and the symbols \<open>l\<close> emitted so far.
\<close>

fun decode_loop :: "node \<Rightarrow> node \<Rightarrow> int option list \<Rightarrow> int \<Rightarrow> string \<Rightarrow> error + int list" where
  "decode_loop tree temp l sz [] = bytes l"
| "decode_loop tree temp l sz (num # s) =
     (if temp \<noteq> Null
      then (let temp1 = (if num = CHR ''0'' then left temp else temp);
                temp2 = (if num = CHR ''1'' then right temp1 else temp1)
            in if temp2 \<noteq> Null \<and> is_leaf temp2
               then (let l' = l @ [symbol temp2]
                     in if int (length l') = sz then bytes l'
                        else decode_loop tree tree l' sz s)
               else decode_loop tree temp2 l sz s)
      else decode_loop tree temp l sz s)"

definition generate_uncompressed :: "node \<Rightarrow> int list \<Rightarrow> int \<Rightarrow> error + int list" where
  "generate_uncompressed tree text sz =
     decode_loop tree tree [] sz (concat (map byte_to_bits text))"

text \<open>
  \<open>bytes_to_nodes\<close> reads four bytes at every fourth index; a buffer whose length is
  not a multiple of 4 raises IndexError at the first missing byte.
\<close>

fun bytes_to_nodes :: "int list \<Rightarrow> error + ReadNode list" where
  "bytes_to_nodes [] = Inr []"
| "bytes_to_nodes (lt # ld # rt # rd # buf) =
     (case bytes_to_nodes buf of
        Inl e \<Rightarrow> Inl e
      | Inr lst \<Rightarrow> Inr (\<lparr>l_type = lt, l_data = ld, r_type = rt, r_data = rd\<rparr> # lst))"
| "bytes_to_nodes buf = Inl IndexError"

text \<open>\<open>int.from_bytes(buf, "little")\<close>, for a buffer of any length.\<close>

fun bytes_to_size :: "int list \<Rightarrow> int" where
  "bytes_to_size [] = 0"
| "bytes_to_size (b # buf) = b + 256 * bytes_to_size buf"

text \<open>
  \<open>uncompress\<close> from the contents of the input file to the contents of the output file.
  \<open>f.read(n)\<close> returns the next \<open>n\<close> bytes, or fewer at the end of the file.
\<close>

definition uncompress :: "int list \<Rightarrow> (error + int list) option" where
  "uncompress file =
     (case file of
        [] \<Rightarrow> Some (Inl IndexError)
      | num_nodes # rest \<Rightarrow>
          (let buf = take (nat (num_nodes * 4)) rest;
               rest1 = drop (nat (num_nodes * 4)) rest
           in case bytes_to_nodes buf of
                Inl e \<Rightarrow> Some (Inl e)
              | Inr node_lst \<Rightarrow>
                  (case generate_tree_general node_lst (num_nodes - 1) of
                     None \<Rightarrow> None
                   | Some (Inl e) \<Rightarrow> Some (Inl e)
                   | Some (Inr tree) \<Rightarrow>
                       (let sz = bytes_to_size (take 4 rest1);
                            text = drop 4 rest1
                        in Some (generate_uncompressed tree text sz)))))"

subsection \<open>Other functions\<close>

text \<open>
  \<open>improve_tree\<close> changes the symbols of the leaves in place. A reference to a node of
  the tree is modelled by the path from the root to it (\<open>False\<close> for left, \<open>True\<close> for
  right); the tree is the store the references point into.
\<close>

fun node_at :: "node \<Rightarrow> bool list \<Rightarrow> node" where
  "node_at t [] = t"
| "node_at Null (d # p) = Null"
| "node_at (HuffmanNode s l r k) (d # p) = node_at (if d then r else l) p"

fun set_symbol :: "node \<Rightarrow> bool list \<Rightarrow> int option \<Rightarrow> node" where
  "set_symbol Null p v = Null"
| "set_symbol (HuffmanNode s l r k) [] v = HuffmanNode v l r k"
| "set_symbol (HuffmanNode s l r k) (d # p) v =
     (if d then HuffmanNode s l (set_symbol r p v) k
      else HuffmanNode s (set_symbol l p v) r k)"

lemma size_node_at_set_symbol: "size (node_at (set_symbol t p v) q) = size (node_at t q)"
proof (induction t p v arbitrary: q rule: set_symbol.induct)
  case (1 p v)
  then show ?case by (cases q) simp_all
next
  case (2 s l r k v)
  then show ?case by (cases q) simp_all
next
  case (3 s l r k d p v)
  show ?case
  proof (cases q)
    case Nil
    then show ?thesis using "3.IH"(1) [of "[]"] "3.IH"(2) [of "[]"] by auto
  next
    case (Cons d' q')
    then show ?thesis using "3.IH"(1) [of q'] "3.IH"(2) [of q'] by auto
  qed
qed

lemma node_at_snoc:
  "node_at t p = HuffmanNode s l r k \<Longrightarrow> node_at t (p @ [d]) = (if d then r else l)"
proof (induction t p rule: node_at.induct)
  case (1 t)
  then show ?case by simp
next
  case (2 d' p)
  then show ?case by simp
next
  case (3 s' l' r' k' d' p)
  then show ?case by simp
qed

definition queue_size :: "node \<Rightarrow> bool list list \<Rightarrow> nat" where
  "queue_size tree lst_tree = sum_list (map (\<lambda>p. size (node_at tree p)) lst_tree)"

lemma queue_size_set_symbol: "queue_size (set_symbol tree p v) q = queue_size tree q"
  by (simp add: queue_size_def size_node_at_set_symbol)

lemma queue_size_step:
  assumes "node_at tree p = HuffmanNode s l r k"
  shows "queue_size tree
           (lst_tree @ (if l \<noteq> Null then [p @ [False]] else [])
                     @ (if r \<noteq> Null then [p @ [True]] else []))
         < queue_size tree (p # lst_tree)"
proof -
  have "node_at tree (p @ [False]) = l" "node_at tree (p @ [True]) = r"
    using node_at_snoc [OF assms] by simp_all
  then show ?thesis
    using assms by (simp add: queue_size_def)
qed

text \<open>
  The level-order loop: \<open>lst_tree\<close> is the queue of references, \<open>freq_lst\<close> the sorted
  list of \<open>(frequency, symbol)\<close> pairs, popped from its end.
\<close>

function improve_loop ::
  "node \<Rightarrow> bool list list \<Rightarrow> (int \<times> int) list \<Rightarrow> error + node"
where
  "improve_loop tree [] freq_lst = Inr tree"
| "improve_loop tree (p # lst_tree) freq_lst =
     (case node_at tree p of
        Null \<Rightarrow> Inl AttributeError
      | HuffmanNode s l r k \<Rightarrow>
          (let lst_tree' = lst_tree @ (if l \<noteq> Null then [p @ [False]] else [])
                                    @ (if r \<noteq> Null then [p @ [True]] else [])
           in if is_leaf (HuffmanNode s l r k)
              then (if freq_lst = [] then Inl IndexError
                    else improve_loop (set_symbol tree p (Some (snd (last freq_lst))))
                           lst_tree' (butlast freq_lst))
              else improve_loop tree lst_tree' freq_lst))"
  by pat_completeness auto
termination
proof (relation "measure (\<lambda>(tree, lst_tree, freq_lst). queue_size tree lst_tree)")
  show "wf (measure (\<lambda>(tree, lst_tree, freq_lst). queue_size tree lst_tree))"
    by simp
next
  fix tree p lst_tree and freq_lst :: "(int \<times> int) list" and s l r k lst_tree'
  assume at: "node_at tree p = HuffmanNode s l r k"
    and q: "lst_tree' = lst_tree @ (if l \<noteq> Null then [p @ [False]] else [])
                                 @ (if r \<noteq> Null then [p @ [True]] else [])"
  show "((set_symbol tree p (Some (snd (last freq_lst))), lst_tree', butlast freq_lst),
         (tree, p # lst_tree, freq_lst))
        \<in> measure (\<lambda>(tree, lst_tree, freq_lst). queue_size tree lst_tree)"
    using queue_size_step [OF at, of lst_tree] q
    by (simp add: queue_size_set_symbol)
next
  fix tree p lst_tree and freq_lst :: "(int \<times> int) list" and s l r k lst_tree'
  assume at: "node_at tree p = HuffmanNode s l r k"
    and q: "lst_tree' = lst_tree @ (if l \<noteq> Null then [p @ [False]] else [])
                                 @ (if r \<noteq> Null then [p @ [True]] else [])"
  show "((tree, lst_tree', freq_lst), (tree, p # lst_tree, freq_lst))
        \<in> measure (\<lambda>(tree, lst_tree, freq_lst). queue_size tree lst_tree)"
    using queue_size_step [OF at, of lst_tree] q by simp
qed

definition improve_tree :: "node \<Rightarrow> (int \<times> int) list \<Rightarrow> error + node" where
  "improve_tree tree freq_dict =
     (let freq_lst = sort (map (\<lambda>(key, v). (v, key)) freq_dict)
      in improve_loop tree [[]] freq_lst)"

text \<open>
  The numbers carried by the internal nodes of a tree, in postorder (left subtree, right
  subtree, the node itself); leaves receive no number.
\<close>

fun internal_numbers :: "node \<Rightarrow> int option list" where
  "internal_numbers Null = []"
| "internal_numbers (HuffmanNode s l r k) =
     (if is_leaf (HuffmanNode s l r k) then []
      else internal_numbers l @ internal_numbers r @ [k])"

text \<open>
  The symbols that the walk of \<open>generate_uncompressed\<close> emits when it runs through all
  the bits with no bound on their number: the loop without its test on \<open>size\<close>.
\<close>

fun emitted :: "node \<Rightarrow> node \<Rightarrow> string \<Rightarrow> int option list" where
  "emitted tree temp [] = []"
| "emitted tree temp (num # s) =
     (if temp \<noteq> Null
      then (let temp1 = (if num = CHR ''0'' then left temp else temp);
                temp2 = (if num = CHR ''1'' then right temp1 else temp1)
            in if temp2 \<noteq> Null \<and> is_leaf temp2
               then symbol temp2 # emitted tree tree s
               else emitted tree temp2 s)
      else emitted tree temp s)"

text \<open>
  A code tree: every node is either a leaf that carries a symbol, or an internal node
  with no symbol and two children that are code trees again.
\<close>

fun full :: "node \<Rightarrow> bool" where
  "full Null = False"
| "full (HuffmanNode s l r k) =
     (if l = Null \<and> r = Null then s \<noteq> None else s = None \<and> full l \<and> full r)"

text \<open>The leaf symbols of all the trees of a node list of \<open>huffman_tree\<close>.\<close>

definition forest_leaves :: "(int \<times> node) list \<Rightarrow> int option multiset" where
  "forest_leaves node_list = (\<Sum>p\<in>#mset node_list. mset (get_leaf (snd p)))"

text \<open>The value of a bit character, and the value \<open>bits_to_byte\<close> gives to a string of
  bit characters that starts at position \<open>pos\<close> of a byte.\<close>

definition bit_val :: "char \<Rightarrow> int" where
  "bit_val c = (if c = CHR ''1'' then 1 else 0)"

fun bits_value :: "nat \<Rightarrow> string \<Rightarrow> int" where
  "bits_value pos [] = 0"
| "bits_value pos (c # cs) = push_bit (7 - pos) (bit_val c) + bits_value (Suc pos) cs"

declare generate_tree_general.simps [code]

section \<open>Tree numbering\<close>

lemma number_internal_snd: "snd (number_internal t n) = n + count_internal t"
  by (induction t arbitrary: n) (auto simp: split_beta Let_def)

lemma number_internal_Null [simp]: "fst (number_internal t n) = Null \<longleftrightarrow> t = Null"
  by (cases t) (auto simp: split_beta Let_def)

lemma is_leaf_number_internal [simp]: "is_leaf (fst (number_internal t n)) = is_leaf t"
  by (cases t) (auto simp: split_beta Let_def)

lemma upto_three:
  fixes n a b :: int
  assumes "0 \<le> a" "0 \<le> b"
  shows "[n .. n + a + b] = [n .. n + a - 1] @ [n + a .. n + a + b - 1] @ [n + a + b]"
proof -
  have 1: "[n .. n + a + b] = [n .. n + a + b - 1] @ [n + a + b]"
    using assms upto_rec2 [of n "n + a + b"] by simp
  have 2: "[n .. n + a + b - 1] = [n .. n + a - 1] @ [n + a .. n + a + b - 1]"
  proof (cases "a = 0 \<or> b = 0")
    case True
    then show ?thesis by auto
  next
    case False
    then show ?thesis
      using assms upto_split2 [of n "n + a - 1" "n + a + b - 1"] by simp
  qed
  show ?thesis using 1 2 by simp
qed

text \<open>The numbering is the postorder numbering: the internal nodes carry \<open>n, n+1, ...\<close>.\<close>

lemma internal_numbers_number_internal:
  "internal_numbers (fst (number_internal t n)) = map Some [n .. n + count_internal t - 1]"
proof (induction t arbitrary: n)
  case Null
  then show ?case by simp
next
  case (HuffmanNode s l r k)
  show ?case
  proof (cases "is_leaf (HuffmanNode s l r k)")
    case True
    then show ?thesis by simp
  next
    case False
    let ?a = "count_internal l" and ?b = "count_internal r"
    have a: "0 \<le> ?a" and b: "0 \<le> ?b" by (rule count_internal_nonneg)+
    have u: "[n .. n + ?a + ?b] = [n .. n + ?a - 1] @ [n + ?a .. n + ?a + ?b - 1] @ [n + ?a + ?b]"
      by (rule upto_three [OF a b])
    have l: "internal_numbers (fst (number_internal l n)) = map Some [n .. n + ?a - 1]"
      by (rule HuffmanNode.IH(1))
    have r: "internal_numbers (fst (number_internal r (n + ?a)))
             = map Some [n + ?a .. n + ?a + ?b - 1]"
      by (rule HuffmanNode.IH(2))
    have "1 + ?a + ?b - 1 = ?a + ?b" by simp
    then show ?thesis
      using False l r u
      by (simp add: split_beta Let_def number_internal_snd add.assoc [symmetric])
  qed
qed

text \<open>
  Claim C10. For every tree whose root is an internal node, after \<open>number_nodes\<close> the
  root carries the number \<open>count_internal tree - 1\<close>, and that number is the highest:
  every internal node of the numbered tree carries a number between 0 and it. (A root
  that is a leaf, or an absent tree, is given no number at all.)
\<close>

theorem number_nodes_root_highest:
  assumes "t \<noteq> Null" and "\<not> is_leaf t"
  shows "number (number_nodes t) = Some (count_internal t - 1)
         \<and> (\<forall>m \<in> set (internal_numbers (number_nodes t)).
               \<exists>j. m = Some j \<and> 0 \<le> j \<and> j \<le> count_internal t - 1)"
proof -
  obtain s l r k where t: "t = HuffmanNode s l r k"
    using assms(1) by (cases t) auto
  have "number (number_nodes t) = Some (count_internal t - 1)"
    using assms(2) unfolding t number_nodes_def
    by (simp add: split_beta Let_def number_internal_snd)
  moreover have "internal_numbers (number_nodes t) = map Some [0 .. count_internal t - 1]"
    unfolding number_nodes_def using internal_numbers_number_internal [of t 0] by simp
  ultimately show ?thesis by auto
qed

theorem number_nodes_root_highest_witness:
  "HuffmanNode None
     (HuffmanNode None (HuffmanNode (Some 3) Null Null None)
        (HuffmanNode (Some 2) Null Null None) None)
     (HuffmanNode None (HuffmanNode (Some 9) Null Null None)
        (HuffmanNode (Some 10) Null Null None) None) None \<noteq> Null
   \<and> \<not> is_leaf (HuffmanNode None
     (HuffmanNode None (HuffmanNode (Some 3) Null Null None)
        (HuffmanNode (Some 2) Null Null None) None)
     (HuffmanNode None (HuffmanNode (Some 9) Null Null None)
        (HuffmanNode (Some 10) Null Null None) None) None)
   \<and> number (number_nodes (HuffmanNode None
     (HuffmanNode None (HuffmanNode (Some 3) Null Null None)
        (HuffmanNode (Some 2) Null Null None) None)
     (HuffmanNode None (HuffmanNode (Some 9) Null Null None)
        (HuffmanNode (Some 10) Null Null None) None) None)) = Some 2"
  using number_nodes_root_highest [of "HuffmanNode None
     (HuffmanNode None (HuffmanNode (Some 3) Null Null None)
        (HuffmanNode (Some 2) Null Null None) None)
     (HuffmanNode None (HuffmanNode (Some 9) Null Null None)
        (HuffmanNode (Some 10) Null Null None) None) None"]
  by simp

section \<open>The empty input\<close>

text \<open>
  Claim C5, as stated, fails: compressing the empty byte sequence does not succeed.
  The frequency dictionary is empty, the node list of \<open>huffman_tree\<close> is empty, and
  \<open>node_list[0]\<close> raises IndexError.
\<close>

theorem compress_empty_counterexample: "compress [] = Inl IndexError"
  by (simp add: compress_def make_freq_dict_def huffman_tree_def)

text \<open>
  Claim C5, amended. No function handles an empty alphabet: \<open>huffman_tree\<close> raises
  IndexError on the empty frequency dictionary, \<open>compress\<close> of the empty byte sequence
  raises it and writes no output, and \<open>uncompress\<close> of the five zero bytes (zero
  internal nodes, zero size, no payload) raises IndexError as well.
\<close>

theorem empty_input_raises:
  "make_freq_dict [] = []
   \<and> huffman_tree [] = Inl IndexError
   \<and> (\<forall>out. compress [] \<noteq> Inr out)
   \<and> uncompress [0, 0, 0, 0, 0] = Some (Inl IndexError)"
  by (simp add: compress_def make_freq_dict_def huffman_tree_def uncompress_def
      generate_tree_general.simps py_index_def)

section \<open>Padding of the packed bit string\<close>

text \<open>
  Claim C6. The code bits of eight symbols with the one-bit code \<open>0\<close> fill one byte
  exactly, and \<open>generate_compressed\<close> returns two bytes: with \<open>reman = 0\<close> it appends
  \<open>8 - reman = 8\<close> padding bits, a whole byte of padding.
\<close>

theorem generate_compressed_pads_whole_byte:
  "generate_compressed [0, 0, 0, 0, 0, 0, 0, 0]
     [(Some 0, ''0''), (Some 1, ''10''), (Some 2, ''11'')] = Inr [0, 0]"
  by code_simp

section \<open>Decoding a truncated bit string\<close>

lemma bytes_map_Some: "\<forall>b\<in>set out. 0 \<le> b \<and> b < 256 \<Longrightarrow> bytes (map Some out) = Inr out"
  by (induction out) auto

lemma decode_loop_short:
  "int (length l + length (emitted tree temp s)) < sz
   \<Longrightarrow> decode_loop tree temp l sz s = bytes (l @ emitted tree temp s)"
proof (induction s arbitrary: temp l)
  case Nil
  then show ?case by simp
next
  case (Cons num s)
  show ?case
  proof (cases "temp = Null")
    case True
    then show ?thesis using Cons.IH [of l temp] Cons.prems by simp
  next
    case False
    define temp2 where "temp2 = (if num = CHR ''1''
       then right (if num = CHR ''0'' then left temp else temp)
       else (if num = CHR ''0'' then left temp else temp))"
    show ?thesis
    proof (cases "temp2 \<noteq> Null \<and> is_leaf temp2")
      case True
      have e: "emitted tree temp (num # s) = symbol temp2 # emitted tree tree s"
        using False True by (simp add: temp2_def Let_def)
      have "int (length (l @ [symbol temp2]) + length (emitted tree tree s)) < sz"
        using Cons.prems e by simp
      then have ih: "decode_loop tree tree (l @ [symbol temp2]) sz s
                 = bytes ((l @ [symbol temp2]) @ emitted tree tree s)"
        by (rule Cons.IH)
      have ne: "int (length (l @ [symbol temp2])) \<noteq> sz"
        using Cons.prems e by simp
      have "decode_loop tree temp l sz (num # s) = decode_loop tree tree (l @ [symbol temp2]) sz s"
        using False True ne by (simp add: temp2_def Let_def)
      then show ?thesis using ih e by simp
    next
      case nl: False
      have e: "emitted tree temp (num # s) = emitted tree temp2 s"
        using False nl by (auto simp add: temp2_def Let_def)
      have "decode_loop tree temp l sz (num # s) = decode_loop tree temp2 l sz s"
        using False nl by (auto simp add: temp2_def Let_def)
      then show ?thesis using Cons.IH [of l temp2] Cons.prems e by simp
    qed
  qed
qed

text \<open>
  Claim C7, as stated, fails: with the tree \<open>(3, 2)\<close>, the single byte 0 (eight bits,
  eight symbols) and a declared count of 9, \<open>generate_uncompressed\<close> raises nothing
  and returns the eight symbols it could decode.
\<close>

theorem truncated_stream_counterexample:
  "generate_uncompressed
     (HuffmanNode None (HuffmanNode (Some 3) Null Null None)
        (HuffmanNode (Some 2) Null Null None) None)
     [0] 9 = Inr [3, 3, 3, 3, 3, 3, 3, 3]"
  by code_simp

text \<open>
  Claim C7, amended. For every decoding tree, packed byte sequence and declared symbol
  count: if the bits encode fewer symbols than the declared count (and the symbols are
  bytes), \<open>generate_uncompressed\<close> does not fail; it returns the symbols decoded from
  the bits there are, an output shorter than the declared count.
\<close>

theorem truncated_stream_returns_short:
  assumes "emitted tree tree (concat (map byte_to_bits text)) = map Some out"
    and "\<forall>b\<in>set out. 0 \<le> b \<and> b < 256"
    and "int (length out) < sz"
  shows "generate_uncompressed tree text sz = Inr out"
  using decode_loop_short [of "[]" tree tree "concat (map byte_to_bits text)" sz] assms
  by (simp add: generate_uncompressed_def bytes_map_Some)

theorem truncated_stream_returns_short_witness:
  "emitted (HuffmanNode None (HuffmanNode (Some 3) Null Null None)
              (HuffmanNode (Some 2) Null Null None) None)
     (HuffmanNode None (HuffmanNode (Some 3) Null Null None)
        (HuffmanNode (Some 2) Null Null None) None)
     (concat (map byte_to_bits [5])) = map Some [3, 3, 3, 3, 3, 2, 3, 2]
   \<and> int (length [3, 3, 3, 3, 3, 2, 3, 2 :: int]) < 20
   \<and> generate_uncompressed
       (HuffmanNode None (HuffmanNode (Some 3) Null Null None)
          (HuffmanNode (Some 2) Null Null None) None)
       [5] 20 = Inr [3, 3, 3, 3, 3, 2, 3, 2]"
proof -
  have 1: "emitted (HuffmanNode None (HuffmanNode (Some 3) Null Null None)
              (HuffmanNode (Some 2) Null Null None) None)
     (HuffmanNode None (HuffmanNode (Some 3) Null Null None)
        (HuffmanNode (Some 2) Null Null None) None)
     (concat (map byte_to_bits [5])) = map Some [3, 3, 3, 3, 3, 2, 3, 2]"
    by code_simp
  have 2: "\<forall>b\<in>set [3, 3, 3, 3, 3, 2, 3, 2 :: int]. 0 \<le> b \<and> b < 256" by simp
  have 3: "int (length [3, 3, 3, 3, 3, 2, 3, 2 :: int]) < 20" by simp
  show ?thesis using 1 3 truncated_stream_returns_short [OF 1 2 3] by blast
qed

section \<open>The alphabet of a single symbol\<close>

text \<open>
  Claim C4. For the frequency dictionary \<open>{42: 100}\<close> the tree is a root with the leaf
  42 as its only child, and the code of 42 is the one bit \<open>0\<close>. The round trip fails:
  \<open>tree_to_bytes\<close> writes a record of two bytes for the root, \<open>uncompress\<close> reads four,
  so the size is read two bytes late (as 0) and 88 symbols come back for the 100 that
  went in.
\<close>

theorem single_symbol_round_trip_fails:
  "huffman_tree [(42, 100)]
     = Inr (HuffmanNode None (HuffmanNode (Some 42) Null Null None) Null None)
   \<and> get_codes (HuffmanNode None (HuffmanNode (Some 42) Null Null None) Null None)
     = [(Some 42, ''0'')]
   \<and> compress (replicate 100 42) = Inr ([1, 0, 42, 100, 0, 0, 0] @ replicate 13 0)
   \<and> uncompress ([1, 0, 42, 100, 0, 0, 0] @ replicate 13 0) = Some (Inr (replicate 88 42))"
  by code_simp

text \<open>
  Claim C2. The tree built for a single symbol has a root with one child. Its
  serialization is the two bytes \<open>0, 42\<close>, not a record of four bytes, and
  \<open>bytes_to_nodes\<close> raises IndexError on it: no tree is reconstructed.
\<close>

theorem single_child_serialization_fails:
  "number_nodes (HuffmanNode None (HuffmanNode (Some 42) Null Null None) Null None)
     = HuffmanNode None (HuffmanNode (Some 42) Null Null None) Null (Some 0)
   \<and> tree_to_bytes (HuffmanNode None (HuffmanNode (Some 42) Null Null None) Null (Some 0))
     = Inr [0, 42]
   \<and> bytes_to_nodes [0, 42] = Inl IndexError"
  by code_simp

section \<open>Code trees and prefix-free codes\<close>

lemma get_leaf_node:
  "get_leaf (HuffmanNode s l r k) = (if l = Null \<and> r = Null then [s] else get_leaf r @ get_leaf l)"
  by (simp add: gather_lists_def)

declare get_leaf.simps(2) [simp del]
declare get_leaf_node [simp]

lemma full_not_Null: "full t \<Longrightarrow> t \<noteq> Null"
  by (cases t) simp_all

lemma full_leaf_not_None: "full t \<Longrightarrow> None \<notin> set (get_leaf t)"
  by (induction t) (auto split: if_splits)

lemma full_get_leaf_nonempty: "full t \<Longrightarrow> get_leaf t \<noteq> []"
  by (induction t) (auto split: if_splits)

lemma contains_full: "full t \<Longrightarrow> a \<noteq> None \<Longrightarrow> contains t a = (a \<in> set (get_leaf t))"
  by (induction t) (auto split: if_splits)

lemma get_path_prefix_free:
  "full t \<Longrightarrow> distinct (get_leaf t) \<Longrightarrow> a \<in> set (get_leaf t) \<Longrightarrow> b \<in> set (get_leaf t)
   \<Longrightarrow> a \<noteq> b \<Longrightarrow> \<not> prefix (get_path t a) (get_path t b)"
proof (induction t)
  case Null
  then show ?case by simp
next
  case (HuffmanNode s l r k)
  show ?case
  proof (cases "l = Null \<and> r = Null")
    case True
    then show ?thesis using HuffmanNode.prems by simp
  next
    case False
    then have s: "s = None" and fl: "full l" and fr: "full r"
      using HuffmanNode.prems(1) by simp_all
    have lv: "get_leaf (HuffmanNode s l r k) = get_leaf r @ get_leaf l"
      using False by simp
    have an: "a \<noteq> None"
      using full_leaf_not_None [OF HuffmanNode.prems(1)] HuffmanNode.prems(3) by metis
    have bn: "b \<noteq> None"
      using full_leaf_not_None [OF HuffmanNode.prems(1)] HuffmanNode.prems(4) by metis
    have dl: "distinct (get_leaf l)" and dr: "distinct (get_leaf r)"
      and disj: "set (get_leaf l) \<inter> set (get_leaf r) = {}"
      using HuffmanNode.prems(2) lv by auto
    have ca: "contains l a = (a \<in> set (get_leaf l))" and cb: "contains l b = (b \<in> set (get_leaf l))"
      using contains_full [OF fl] an bn by auto
    have ab: "a \<in> set (get_leaf l) \<or> a \<in> set (get_leaf r)" "b \<in> set (get_leaf l) \<or> b \<in> set (get_leaf r)"
      using HuffmanNode.prems(3,4) lv by auto
    show ?thesis
    proof (cases "a \<in> set (get_leaf l)")
      case al: True
      show ?thesis
      proof (cases "b \<in> set (get_leaf l)")
        case True
        then show ?thesis
          using HuffmanNode.IH(1) [OF fl dl al True HuffmanNode.prems(5)] s an bn ca cb al by auto
      next
        case False
        then show ?thesis using s an bn ca cb al by auto
      qed
    next
      case anl: False
      then have ar: "a \<in> set (get_leaf r)" using ab by simp
      show ?thesis
      proof (cases "b \<in> set (get_leaf l)")
        case True
        then show ?thesis using s an bn ca cb anl by auto
      next
        case False
        then have br: "b \<in> set (get_leaf r)" using ab by simp
        show ?thesis
          using HuffmanNode.IH(2) [OF fr dr ar br HuffmanNode.prems(5)] s an bn ca cb anl False by auto
      qed
    qed
  qed
qed


lemma foldl_update_set:
  assumes "\<forall>p \<in> set d. snd p = f (fst p)"
  shows "set (foldl (\<lambda>dic a. AList.update a (f a) dic) d xs)
   = {p \<in> set d. fst p \<notin> set xs} \<union> (\<lambda>a. (a, f a)) ` set xs"
  using assms
proof (induction xs arbitrary: d)
  case Nil
  then show ?case by auto
next
  case (Cons x xs)
  have u: "set (AList.update x (f x) d) = insert (x, f x) {p \<in> set d. fst p \<noteq> x}"
    using Cons.prems by (induction d) auto
  have inv: "\<forall>p \<in> set (AList.update x (f x) d). snd p = f (fst p)"
    using Cons.prems u by auto
  show ?case using Cons.IH [OF inv] u by auto
qed

lemma set_get_codes: "set (get_codes t) = (\<lambda>a. (a, get_path t a)) ` set (get_leaf t)"
  unfolding get_codes_def by (subst foldl_update_set) auto


lemma forest_leaves_sort [simp]: "forest_leaves (sort_key f node_list) = forest_leaves node_list"
  by (simp add: forest_leaves_def)

lemma merge_loop_full:
  "node_list \<noteq> [] \<Longrightarrow> \<forall>p\<in>set node_list. full (snd p)
   \<Longrightarrow> \<exists>t. merge_loop node_list = Inr t \<and> full t \<and> mset (get_leaf t) = forest_leaves node_list"
proof (induction node_list rule: merge_loop.induct)
  case (1 m1 m2 node_list)
  let ?n = "HuffmanNode None (snd m1) (snd m2) None"
  let ?new = "sort_key fst (node_list @ [(fst m1 + fst m2, ?n)])"
  have f1: "full (snd m1)" and f2: "full (snd m2)" using "1.prems"(2) by simp_all
  have fn: "full ?n" using f1 f2 full_not_Null by simp
  have "mset (get_leaf ?n) = mset (get_leaf (snd m1)) + mset (get_leaf (snd m2))"
    using full_not_Null [OF f1] by simp
  then have fl: "forest_leaves ?new = forest_leaves (m1 # m2 # node_list)"
    by (simp add: forest_leaves_def)
  have ne: "?new \<noteq> []"
    by (metis length_sort length_0_conv snoc_eq_iff_butlast)
  have all: "\<forall>p\<in>set ?new. full (snd p)"
    using "1.prems"(2) fn by auto
  obtain t where "merge_loop ?new = Inr t" "full t" "mset (get_leaf t) = forest_leaves ?new"
    using "1.IH" [OF ne all] by blast
  then show ?case using fl by simp
next
  case (2 m)
  then show ?case by (simp add: forest_leaves_def)
next
  case 3
  then show ?case by simp
qed

lemma huffman_tree_single:
  "huffman_tree [(k, v)] = Inr (HuffmanNode None (HuffmanNode (Some k) Null Null None) Null None)"
  by (simp add: huffman_tree_def)

lemma huffman_tree_full:
  assumes "2 \<le> length freq_dict"
  shows "\<exists>t. huffman_tree freq_dict = Inr t \<and> full t
           \<and> mset (get_leaf t) = mset (map (\<lambda>p. Some (fst p)) freq_dict)"
proof -
  let ?sl = "sort (map (\<lambda>i. (snd i, fst i)) freq_dict)"
  let ?nl = "map (\<lambda>i. (fst i, HuffmanNode (Some (snd i)) Null Null None)) ?sl"
  have len: "length ?nl = length freq_dict" by simp
  have h: "huffman_tree freq_dict = merge_loop ?nl"
    using assms by (simp add: huffman_tree_def Let_def)
  have ne: "?nl \<noteq> []" using assms len by (metis length_0_conv not_numeral_le_zero)
  have all: "\<forall>p\<in>set ?nl. full (snd p)" by auto
  have "forest_leaves ?nl = image_mset (\<lambda>i. Some (snd i)) (mset ?sl)"
    by (simp add: forest_leaves_def image_mset.compositionality comp_def)
  also have "\<dots> = mset (map (\<lambda>p. Some (fst p)) freq_dict)"
    by (simp add: image_mset.compositionality comp_def)
  finally have fl: "forest_leaves ?nl = mset (map (\<lambda>p. Some (fst p)) freq_dict)" .
  show ?thesis using merge_loop_full [OF ne all] h fl by auto
qed


text \<open>
  Claim C3. For every non-empty frequency dictionary (its keys distinct, as in any
  \<open>dict\<close>), \<open>huffman_tree\<close> returns a tree, the code table \<open>get_codes\<close> of that tree
  has exactly the symbols of the dictionary as its keys, and no code of the table is a
  prefix of (or equal to) the code of another symbol.
\<close>

theorem huffman_codes_prefix_free:
  assumes "freq_dict \<noteq> []" and "distinct (map fst freq_dict)"
  shows "\<exists>t. huffman_tree freq_dict = Inr t
           \<and> fst ` set (get_codes t) = (\<lambda>p. Some (fst p)) ` set freq_dict
           \<and> (\<forall>(a, ca) \<in> set (get_codes t). \<forall>(b, cb) \<in> set (get_codes t).
                 a \<noteq> b \<longrightarrow> \<not> prefix ca cb)"
proof (cases "length freq_dict = 1")
  case True
  then obtain k v where f: "freq_dict = [(k, v)]"
    by (cases freq_dict) auto
  let ?t = "HuffmanNode None (HuffmanNode (Some k) Null Null None) Null None"
  have "get_codes ?t = [(Some k, ''0'')]"
    by (simp add: get_codes_def)
  then show ?thesis using f huffman_tree_single [of k v] by simp
next
  case False
  moreover have "length freq_dict \<noteq> 0"
    using assms(1) by simp
  ultimately have "2 \<le> length freq_dict"
    by linarith
  then obtain t where t: "huffman_tree freq_dict = Inr t" "full t"
      "mset (get_leaf t) = mset (map (\<lambda>p. Some (fst p)) freq_dict)"
    using huffman_tree_full by blast
  have "distinct (map (\<lambda>p. Some (fst p)) freq_dict)"
    using assms(2) by (simp add: distinct_map inj_on_def)
  then have d: "distinct (get_leaf t)"
    using t(3) by (metis mset_eq_imp_distinct_iff)
  have s: "set (get_leaf t) = (\<lambda>p. Some (fst p)) ` set freq_dict"
    using mset_eq_setD [OF t(3)] by simp
  have k: "fst ` set (get_codes t) = (\<lambda>p. Some (fst p)) ` set freq_dict"
    using s by (simp add: set_get_codes image_image)
  have "\<not> prefix ca cb"
    if "(a, ca) \<in> set (get_codes t)" "(b, cb) \<in> set (get_codes t)" "a \<noteq> b" for a ca b cb
    using that get_path_prefix_free [OF t(2) d, of a b] by (auto simp: set_get_codes)
  then show ?thesis using t(1) k by blast
qed

theorem huffman_codes_prefix_free_witness:
  "([(3, 2), (2, 7), (9, 1)] :: (int \<times> int) list) \<noteq> [] \<and> distinct (map fst ([(3, 2), (2, 7), (9, 1)] :: (int \<times> int) list))
   \<and> get_codes (HuffmanNode None
         (HuffmanNode None (HuffmanNode (Some 9) Null Null None)
            (HuffmanNode (Some 3) Null Null None) None)
         (HuffmanNode (Some 2) Null Null None) None)
       = [(Some 2, ''1''), (Some 3, ''01''), (Some 9, ''00'')]
   \<and> huffman_tree [(3, 2), (2, 7), (9, 1)]
       = Inr (HuffmanNode None
         (HuffmanNode None (HuffmanNode (Some 9) Null Null None)
            (HuffmanNode (Some 3) Null Null None) None)
         (HuffmanNode (Some 2) Null Null None) None)
   \<and> \<not> prefix ''1'' ''01'' \<and> \<not> prefix ''00'' ''01''"
proof -
  let ?f = "([(3, 2), (2, 7), (9, 1)] :: (int \<times> int) list)"
  let ?t = "HuffmanNode None
         (HuffmanNode None (HuffmanNode (Some 9) Null Null None)
            (HuffmanNode (Some 3) Null Null None) None)
         (HuffmanNode (Some 2) Null Null None) None"
  have ne: "?f \<noteq> []" by simp
  have d: "distinct (map fst ?f)" by simp
  have h: "huffman_tree ?f = Inr ?t" by code_simp
  have c: "get_codes ?t = [(Some 2, ''1''), (Some 3, ''01''), (Some 9, ''00'')]" by code_simp
  have "\<forall>(a, ca) \<in> set (get_codes ?t). \<forall>(b, cb) \<in> set (get_codes ?t).
          a \<noteq> b \<longrightarrow> \<not> prefix ca cb"
    using huffman_codes_prefix_free [OF ne d] h by auto
  then have "\<not> prefix ''1'' ''01'' \<and> \<not> prefix ''00'' ''01''"
    unfolding c by simp
  then show ?thesis using ne d h c by simp
qed

section \<open>Packing bits into bytes\<close>

lemma get_bit_of_bool: "get_bit v n = (if bit v n then 1 else 0)"
  unfolding get_bit_def
proof (rule bit_eqI)
  fix m
  show "bit (drop_bit n (and v (push_bit n 1))) m = bit (if bit v n then 1 else 0 :: int) m"
    by (cases "m = 0") (auto simp: bit_simps)
qed

lemma int_of_digit_bit: "c = CHR ''0'' \<or> c = CHR ''1'' \<Longrightarrow> int_of_digit c = Inr (bit_val c)"
  by (auto simp: int_of_digit_def bit_val_def)

lemma shifted_bits_value:
  "set bs \<subseteq> {CHR ''0'', CHR ''1''} \<Longrightarrow> pos + length bs \<le> 8
   \<Longrightarrow> \<exists>r. shifted_bits pos bs = Inr r \<and> sum_list r = bits_value pos bs"
proof (induction bs arbitrary: pos)
  case Nil
  then show ?case by simp
next
  case (Cons c cs)
  have c: "int_of_digit c = Inr (bit_val c)"
    using Cons.prems(1) by (intro int_of_digit_bit) auto
  have "set cs \<subseteq> {CHR ''0'', CHR ''1''}" "Suc pos + length cs \<le> 8"
    using Cons.prems by auto
  then obtain r where "shifted_bits (Suc pos) cs = Inr r" "sum_list r = bits_value (Suc pos) cs"
    using Cons.IH by blast
  moreover have "\<not> 7 < pos" using Cons.prems(2) by simp
  ultimately show ?case using c by simp
qed

lemma bits_value_bounds:
  "pos + length bs \<le> 8 \<Longrightarrow> 0 \<le> bits_value pos bs \<and> bits_value pos bs < 2 ^ (8 - pos)"
proof (induction bs arbitrary: pos)
  case Nil
  then show ?case by simp
next
  case (Cons c cs)
  have p: "8 - pos = Suc (7 - pos)" "8 - Suc pos = 7 - pos" using Cons.prems by auto
  have ih: "0 \<le> bits_value (Suc pos) cs" "bits_value (Suc pos) cs < 2 ^ (7 - pos)"
    using Cons.IH [of "Suc pos"] Cons.prems p by auto
  have "push_bit (7 - pos) (bit_val c) \<le> 2 ^ (7 - pos)" "0 \<le> push_bit (7 - pos) (bit_val c)"
    by (auto simp: bit_val_def push_bit_eq_mult)
  then show ?case using ih p by simp
qed

lemma bit_below: "0 \<le> r \<Longrightarrow> r < 2 ^ k \<Longrightarrow> bit r n \<Longrightarrow> n < k" for r :: int
  by (metis bit_take_bit_iff take_bit_int_eq_self)

lemma bit_bits_value:
  "set bs \<subseteq> {CHR ''0'', CHR ''1''} \<Longrightarrow> pos + length bs \<le> 8
   \<Longrightarrow> bit (bits_value pos bs) n \<longleftrightarrow> (\<exists>i < length bs. pos + i + n = 7 \<and> bs ! i = CHR ''1'')"
proof (induction bs arbitrary: pos)
  case Nil
  then show ?case by simp
next
  case (Cons c cs)
  let ?k = "7 - pos"
  let ?R = "bits_value (Suc pos) cs"
  have p: "8 - Suc pos = ?k" "pos \<le> 7" using Cons.prems by auto
  have b: "0 \<le> ?R" "?R < 2 ^ ?k"
    using bits_value_bounds [of "Suc pos" cs] Cons.prems p by auto
  have low: "bit ?R m \<Longrightarrow> m < ?k" for m
    using bit_below [OF b] by blast
  have hi: "bit (push_bit ?k (bit_val c)) m \<longleftrightarrow> (m = ?k \<and> c = CHR ''1'')" for m
    by (auto simp: bit_val_def bit_push_bit_iff bit_1_iff)
  have "push_bit ?k (bit_val c) + ?R = or (push_bit ?k (bit_val c)) ?R"
    by (rule disjunctive_add) (use low hi in fastforce)
  then have "bit (bits_value pos (c # cs)) n \<longleftrightarrow> (n = ?k \<and> c = CHR ''1'') \<or> bit ?R n"
    by (simp add: bit_or_iff hi)
  also have "bit ?R n \<longleftrightarrow> (\<exists>i < length cs. Suc pos + i + n = 7 \<and> cs ! i = CHR ''1'')"
    using Cons.IH [of "Suc pos"] Cons.prems by auto
  also have "(n = ?k \<and> c = CHR ''1'') \<or> (\<exists>i < length cs. Suc pos + i + n = 7 \<and> cs ! i = CHR ''1'')
     \<longleftrightarrow> (\<exists>i < length (c # cs). pos + i + n = 7 \<and> (c # cs) ! i = CHR ''1'')"
  proof
    assume "(n = ?k \<and> c = CHR ''1'') \<or> (\<exists>i < length cs. Suc pos + i + n = 7 \<and> cs ! i = CHR ''1'')"
    then show "\<exists>i < length (c # cs). pos + i + n = 7 \<and> (c # cs) ! i = CHR ''1''"
    proof
      assume "n = ?k \<and> c = CHR ''1''"
      then show ?thesis using p by (intro exI [of _ 0]) auto
    next
      assume "\<exists>i < length cs. Suc pos + i + n = 7 \<and> cs ! i = CHR ''1''"
      then obtain i where "i < length cs" "Suc pos + i + n = 7" "cs ! i = CHR ''1''" by blast
      then show ?thesis by (intro exI [of _ "Suc i"]) auto
    qed
  next
    assume "\<exists>i < length (c # cs). pos + i + n = 7 \<and> (c # cs) ! i = CHR ''1''"
    then obtain i where i: "i < length (c # cs)" "pos + i + n = 7" "(c # cs) ! i = CHR ''1''" by blast
    show "(n = ?k \<and> c = CHR ''1'') \<or> (\<exists>i < length cs. Suc pos + i + n = 7 \<and> cs ! i = CHR ''1'')"
    proof (cases i)
      case 0
      then show ?thesis using i by auto
    next
      case (Suc j)
      then show ?thesis using i by auto
    qed
  qed
  finally show ?case .
qed

lemma byte_to_bits_map:
  "byte_to_bits v = map (\<lambda>n. if bit v n then CHR ''1'' else CHR ''0'') (rev [0..<8])"
proof -
  have "str_bit (get_bit v n) = [if bit v n then CHR ''1'' else CHR ''0'']" for n
    by (simp add: str_bit_def get_bit_of_bool)
  then show ?thesis by (simp add: byte_to_bits_def)
qed

lemma bits_to_byte_roundtrip:
  assumes "length bs = 8" and "set bs \<subseteq> {CHR ''0'', CHR ''1''}"
  shows "bits_to_byte bs = Inr (bits_value 0 bs)"
    and "0 \<le> bits_value 0 bs" and "bits_value 0 bs < 256"
    and "byte_to_bits (bits_value 0 bs) = bs"
proof -
  show "bits_to_byte bs = Inr (bits_value 0 bs)"
    using shifted_bits_value [OF assms(2), of 0] assms(1) by (auto simp: bits_to_byte_def)
  show "0 \<le> bits_value 0 bs" "bits_value 0 bs < 256"
    using bits_value_bounds [of 0 bs] assms(1) by simp_all
  show "byte_to_bits (bits_value 0 bs) = bs"
  proof (rule nth_equalityI)
    show "length (byte_to_bits (bits_value 0 bs)) = length bs"
      using assms(1) by (simp add: byte_to_bits_map)
  next
    fix i
    assume "i < length (byte_to_bits (bits_value 0 bs))"
    then have i: "i < 8" by (simp add: byte_to_bits_map)
    have r: "rev [0..<8] ! i = 7 - i"
      using i by (simp add: rev_nth)
    have "bit (bits_value 0 bs) (7 - i) \<longleftrightarrow> (\<exists>j < length bs. 0 + j + (7 - i) = 7 \<and> bs ! j = CHR ''1'')"
      using bit_bits_value [OF assms(2), of 0 "7 - i"] assms(1) by simp
    also have "\<dots> \<longleftrightarrow> bs ! i = CHR ''1''"
    proof
      assume "\<exists>j < length bs. 0 + j + (7 - i) = 7 \<and> bs ! j = CHR ''1''"
      then obtain j where "j < length bs" "0 + j + (7 - i) = 7" "bs ! j = CHR ''1''" by blast
      moreover from this i have "j = i" by simp
      ultimately show "bs ! i = CHR ''1''" by simp
    next
      assume "bs ! i = CHR ''1''"
      then show "\<exists>j < length bs. 0 + j + (7 - i) = 7 \<and> bs ! j = CHR ''1''"
        using i assms(1) by (intro exI [of _ i]) simp
    qed
    finally have b: "bit (bits_value 0 bs) (7 - i) \<longleftrightarrow> bs ! i = CHR ''1''" .
    have "bs ! i \<in> set bs" using i assms(1) by simp
    then have c: "bs ! i = CHR ''0'' \<or> bs ! i = CHR ''1''" using assms(2) by auto
    have "byte_to_bits (bits_value 0 bs) ! i
          = (if bit (bits_value 0 bs) (7 - i) then CHR ''1'' else CHR ''0'')"
      using i r by (simp add: byte_to_bits_map del: upt_Suc rev.simps)
    then show "byte_to_bits (bits_value 0 bs) ! i = bs ! i"
      using b c by auto
  qed
qed

lemma translate_concat:
  "\<forall>i\<in>set text. map_of codes (Some i) = Some (code i)
   \<Longrightarrow> translate codes text r = Inr (r @ concat (map code text))"
  by (induction "text" arbitrary: r) auto

lemma pack_slices_value:
  "set r \<subseteq> {CHR ''0'', CHR ''1''} \<Longrightarrow> \<forall>i\<in>set ixs. 8 * i + 8 \<le> length r
   \<Longrightarrow> pack_slices r ixs = Inr (map (\<lambda>i. bits_value 0 (take 8 (drop (8 * i) r))) ixs)"
proof (induction ixs)
  case Nil
  then show ?case by simp
next
  case (Cons i ixs)
  have "8 * i + 8 \<le> length r" using Cons.prems(2) by simp
  then have l: "length (take 8 (drop (8 * i) r)) = 8" by simp
  have s: "set (take 8 (drop (8 * i) r)) \<subseteq> {CHR ''0'', CHR ''1''}"
    using Cons.prems(1) by (meson set_take_subset set_drop_subset subset_trans)
  show ?case
    using bits_to_byte_roundtrip(1) [OF l s] Cons by simp
qed

lemma concat_slices:
  "length r = 8 * num \<Longrightarrow> concat (map (\<lambda>i. take 8 (drop (8 * i) r)) [0..<num]) = r"
proof (induction num arbitrary: r)
  case 0
  then show ?case by simp
next
  case (Suc num)
  have "[0..<Suc num] = 0 # map Suc [0..<num]"
    by (simp add: upt_conv_Cons map_Suc_upt del: upt_Suc)
  then have "concat (map (\<lambda>i. take 8 (drop (8 * i) r)) [0..<Suc num])
      = take 8 r @ concat (map (\<lambda>i. take 8 (drop (8 * i) (drop 8 r))) [0..<num])"
    by (simp add: comp_def add.commute del: upt_Suc)
  also have "concat (map (\<lambda>i. take 8 (drop (8 * i) (drop 8 r))) [0..<num]) = drop 8 r"
    using Suc.prems by (intro Suc.IH) simp
  finally show ?case by simp
qed

lemma padded_length:
  "length (r0 @ replicate (8 - length r0 mod 8) c) = 8 * (length (r0 @ replicate (8 - length r0 mod 8) c) div 8)"
proof -
  have "8 dvd (length r0 + (8 - length r0 mod 8))"
    by presburger
  then have "8 * ((length r0 + (8 - length r0 mod 8)) div 8) = length r0 + (8 - length r0 mod 8)"
    by (rule dvd_mult_div_cancel)
  then show ?thesis by simp
qed

lemma generate_compressed_bits:
  assumes "\<forall>i\<in>set text. map_of codes (Some i) = Some (code i)"
    and "\<forall>i\<in>set text. set (code i) \<subseteq> {CHR ''0'', CHR ''1''}"
  shows "\<exists>b4. generate_compressed text codes = Inr b4
           \<and> concat (map byte_to_bits b4)
             = concat (map code text)
               @ replicate (8 - length (concat (map code text)) mod 8) (CHR ''0'')"
proof -
  define cs where "cs = concat (map code text)"
  define r where "r = cs @ replicate (8 - length cs mod 8) (CHR ''0'')"
  define num where "num = length r div 8"
  define V where "V = (\<lambda>i. bits_value 0 (take 8 (drop (8 * i) r)))"
  have t: "translate codes text [] = Inr cs"
    using translate_concat [OF assms(1), where r = "[]"] by (simp add: cs_def)
  have len: "length r = 8 * num"
    unfolding num_def r_def by (rule padded_length)
  have sr: "set r \<subseteq> {CHR ''0'', CHR ''1''}"
    using assms(2) by (auto simp: r_def cs_def)
  have ix: "\<forall>i\<in>set [0..<num]. 8 * i + 8 \<le> length r"
  proof
    fix i assume "i \<in> set [0..<num]"
    then have "Suc i \<le> num" by simp
    then have "8 * Suc i \<le> 8 * num" by (rule mult_le_mono2)
    then show "8 * i + 8 \<le> length r" using len by simp
  qed
  have p: "pack_slices r [0..<num] = Inr (map V [0..<num])"
    unfolding V_def by (rule pack_slices_value [OF sr ix])
  have sl: "length (take 8 (drop (8 * i) r)) = 8 \<and> set (take 8 (drop (8 * i) r)) \<subseteq> {CHR ''0'', CHR ''1''}"
    if "i \<in> set [0..<num]" for i
  proof
    have "8 * i + 8 \<le> length r" using ix that by blast
    then show "length (take 8 (drop (8 * i) r)) = 8" by simp
    show "set (take 8 (drop (8 * i) r)) \<subseteq> {CHR ''0'', CHR ''1''}"
      using sr by (meson set_take_subset set_drop_subset subset_trans)
  qed
  have rng: "\<forall>b\<in>set (map V [0..<num]). 0 \<le> b \<and> b < 256"
  proof
    fix b assume "b \<in> set (map V [0..<num])"
    then obtain i where i: "i \<in> set [0..<num]" "b = V i" by auto
    show "0 \<le> b \<and> b < 256"
      using bits_to_byte_roundtrip(2,3) sl [OF i(1)] i(2) unfolding V_def by blast
  qed
  have bt: "bytes (map Some (map V [0..<num])) = Inr (map V [0..<num])"
    by (rule bytes_map_Some [OF rng])
  have "generate_compressed text codes
        = (case pack_slices r [0..<num] of Inl e \<Rightarrow> Inl e | Inr l \<Rightarrow> bytes (map Some l))"
    unfolding generate_compressed_def t num_def r_def by (simp add: Let_def)
  then have g: "generate_compressed text codes = Inr (map V [0..<num])"
    using p bt by simp
  have "map byte_to_bits (map V [0..<num]) = map (\<lambda>i. take 8 (drop (8 * i) r)) [0..<num]"
    unfolding map_map comp_def
  proof (rule map_cong [OF refl])
    fix i assume "i \<in> set [0..<num]"
    then show "byte_to_bits (V i) = take 8 (drop (8 * i) r)"
      using bits_to_byte_roundtrip(4) sl unfolding V_def by blast
  qed
  then have "concat (map byte_to_bits (map V [0..<num]))
             = concat (map (\<lambda>i. take 8 (drop (8 * i) r)) [0..<num])"
    by (rule arg_cong)
  then have "concat (map byte_to_bits (map V [0..<num])) = r"
    by (simp only: concat_slices [OF len])
  then show ?thesis using g unfolding r_def cs_def by blast
qed

section \<open>Decoding a packed bit string and reading back a serialized tree\<close>

lemma full_leaf_symbol:
  "full (HuffmanNode s Null Null k) \<Longrightarrow> a \<in> set (get_leaf (HuffmanNode s Null Null k)) \<Longrightarrow> s = a"
  by simp

lemma get_path_bits:
  "full t \<Longrightarrow> a \<in> set (get_leaf t) \<Longrightarrow> set (get_path t a) \<subseteq> {CHR ''0'', CHR ''1''}"
proof (induction t)
  case Null
  then show ?case by simp
next
  case (HuffmanNode s l r k)
  show ?case
  proof (cases "l = Null \<and> r = Null")
    case True
    then show ?thesis using HuffmanNode.prems by simp
  next
    case False
    then have s: "s = None" and fl: "full l" and fr: "full r"
      using HuffmanNode.prems(1) by simp_all
    have an: "a \<noteq> None"
      using full_leaf_not_None [OF HuffmanNode.prems(1)] HuffmanNode.prems(2) by metis
    have ca: "contains l a = (a \<in> set (get_leaf l))"
      using contains_full [OF fl an] .
    have "a \<in> set (get_leaf l) \<or> a \<in> set (get_leaf r)"
      using HuffmanNode.prems(2) False by auto
    then show ?thesis
      using HuffmanNode.IH(1) [OF fl] HuffmanNode.IH(2) [OF fr] s an ca by auto
  qed
qed

lemma decode_walk:
  "full temp \<Longrightarrow> \<not> is_leaf temp \<Longrightarrow> a \<in> set (get_leaf temp)
   \<Longrightarrow> decode_loop tree temp l sz (get_path temp a @ rest)
       = (if int (length (l @ [a])) = sz then bytes (l @ [a])
          else decode_loop tree tree (l @ [a]) sz rest)"
proof (induction temp)
  case Null
  then show ?case by simp
next
  case (HuffmanNode s lt rt k)
  have nl: "\<not> (lt = Null \<and> rt = Null)" using HuffmanNode.prems(2) by simp
  then have s: "s = None" and fl: "full lt" and fr: "full rt"
    using HuffmanNode.prems(1) by simp_all
  have an: "a \<noteq> None"
    using full_leaf_not_None [OF HuffmanNode.prems(1)] HuffmanNode.prems(3) by metis
  have ca: "contains lt a = (a \<in> set (get_leaf lt))"
    using contains_full [OF fl an] .
  have mem: "a \<in> set (get_leaf lt) \<or> a \<in> set (get_leaf rt)"
    using HuffmanNode.prems(3) nl by auto
  show ?case
  proof (cases "a \<in> set (get_leaf lt)")
    case True
    have p: "get_path (HuffmanNode s lt rt k) a = CHR ''0'' # get_path lt a"
      using s an ca True by auto
    have ih: "\<not> is_leaf lt \<Longrightarrow> decode_loop tree lt l sz (get_path lt a @ rest)
       = (if int (length (l @ [a])) = sz then bytes (l @ [a])
          else decode_loop tree tree (l @ [a]) sz rest)"
      using HuffmanNode.IH(1) [OF fl _ True] by simp
    show ?thesis
    proof (cases "is_leaf lt")
      case lf: True
      then obtain s' k' where lt: "lt = HuffmanNode s' Null Null k'"
        by (cases lt) auto
      then have "s' = a" using fl True by simp
      then show ?thesis unfolding p using lt by (simp add: Let_def)
    next
      case nlf: False
      then show ?thesis unfolding p using ih [OF nlf] full_not_Null [OF fl] by (simp add: Let_def)
    qed
  next
    case False
    then have ar: "a \<in> set (get_leaf rt)" using mem by simp
    have p: "get_path (HuffmanNode s lt rt k) a = CHR ''1'' # get_path rt a"
      using s an ca False by auto
    have ih: "\<not> is_leaf rt \<Longrightarrow> decode_loop tree rt l sz (get_path rt a @ rest)
       = (if int (length (l @ [a])) = sz then bytes (l @ [a])
          else decode_loop tree tree (l @ [a]) sz rest)"
      using HuffmanNode.IH(2) [OF fr _ ar] by simp
    show ?thesis
    proof (cases "is_leaf rt")
      case lf: True
      then obtain s' k' where rt: "rt = HuffmanNode s' Null Null k'"
        by (cases rt) auto
      then have "s' = a" using fr ar by simp
      then show ?thesis unfolding p using rt by (simp add: Let_def)
    next
      case nlf: False
      then show ?thesis unfolding p using ih [OF nlf] full_not_Null [OF fr] by (simp add: Let_def)
    qed
  qed
qed

lemma decode_text:
  assumes "full tree" and "\<not> is_leaf tree"
  shows "text \<noteq> [] \<Longrightarrow> \<forall>x\<in>set text. Some x \<in> set (get_leaf tree)
   \<Longrightarrow> sz = int (length l + length text)
   \<Longrightarrow> decode_loop tree tree l sz (concat (map (\<lambda>x. get_path tree (Some x)) text) @ pad)
       = bytes (l @ map Some text)"
proof (induction "text" arbitrary: l)
  case Nil
  then show ?case by simp
next
  case (Cons x xs)
  have x: "Some x \<in> set (get_leaf tree)" using Cons.prems(2) by simp
  have w: "decode_loop tree tree l sz
            (get_path tree (Some x) @ (concat (map (\<lambda>x. get_path tree (Some x)) xs) @ pad))
       = (if int (length (l @ [Some x])) = sz then bytes (l @ [Some x])
          else decode_loop tree tree (l @ [Some x]) sz
                 (concat (map (\<lambda>x. get_path tree (Some x)) xs) @ pad))"
    by (rule decode_walk [OF assms x])
  show ?case
  proof (cases "xs = []")
    case True
    then show ?thesis using w Cons.prems(3) by simp
  next
    case False
    have "decode_loop tree tree (l @ [Some x]) sz
            (concat (map (\<lambda>x. get_path tree (Some x)) xs) @ pad)
          = bytes ((l @ [Some x]) @ map Some xs)"
      using Cons.prems by (intro Cons.IH [OF False]) auto
    moreover have "int (length (l @ [Some x])) \<noteq> sz"
      using False Cons.prems(3) by simp
    ultimately show ?thesis using w by simp
  qed
qed

lemma bytes_to_nodes_append:
  "bytes_to_nodes xs = Inr a \<Longrightarrow> bytes_to_nodes ys = Inr b
   \<Longrightarrow> bytes_to_nodes (xs @ ys) = Inr (a @ b)"
  by (induction xs arbitrary: a rule: bytes_to_nodes.induct) (auto split: sum.splits)

lemma number_internal_root:
  "t \<noteq> Null \<Longrightarrow> \<not> is_leaf t
   \<Longrightarrow> number (fst (number_internal t n)) = Some (n + count_internal t - 1)"
  by (cases t) (simp_all add: split_beta Let_def number_internal_snd)

lemma number_internal_symbol: "symbol (fst (number_internal t n)) = symbol t"
  by (cases t) (simp_all add: split_beta Let_def)

lemma strip_number_internal: "strip (fst (number_internal t n)) = strip t"
  by (induction t arbitrary: n) (simp_all add: split_beta Let_def)

lemma py_index_mid: "int (length pre) = i \<Longrightarrow> py_index (pre @ x # post) i = Inr x"
  by (auto simp: py_index_def)

lemma generate_node:
  assumes "py_index nodes i = Inr rc"
    and "(if l_type rc = 0 then Some (Inr (HuffmanNode (Some (l_data rc)) Null Null None))
          else if l_type rc = 1 then generate_tree_general nodes (l_data rc)
          else Some (Inr Null)) = Some (Inr lt)"
    and "(if r_type rc = 0 then Some (Inr (HuffmanNode (Some (r_data rc)) Null Null None))
          else if r_type rc = 1 then generate_tree_general nodes (r_data rc)
          else Some (Inr Null)) = Some (Inr rt)"
  shows "generate_tree_general nodes i = Some (Inr (HuffmanNode None lt rt None))"
  by (subst generate_tree_general.simps) (simp add: assms)

text \<open>The two bytes that \<open>tree_to_bytes\<close> writes for a child, as type and value.\<close>

lemma child_record_numbered:
  assumes "full c" and "\<forall>a\<in>set (get_leaf c). \<exists>v. a = Some v \<and> 0 \<le> v \<and> v < 256"
    and "0 \<le> n" and "n + count_internal c \<le> 256"
  shows "\<exists>ty dt. child_record (fst (number_internal c n)) = [Some ty, Some dt]
           \<and> 0 \<le> dt \<and> dt < 256
           \<and> (if is_leaf c then ty = 0 \<and> strip c = HuffmanNode (Some dt) Null Null None
               else ty = 1 \<and> dt = n + count_internal c - 1)"
proof (cases c)
  case Null
  then show ?thesis using assms(1) by simp
next
  case (HuffmanNode s l r k)
  show ?thesis
  proof (cases "l = Null \<and> r = Null")
    case True
    then obtain v where "s = Some v" "0 \<le> v" "v < 256"
      using assms(2) HuffmanNode by auto
    then show ?thesis using True HuffmanNode by simp
  next
    case False
    have "0 \<le> count_internal l" "0 \<le> count_internal r"
      by (rule count_internal_nonneg)+
    then show ?thesis
      using False HuffmanNode assms(3,4)
      by (auto simp add: split_beta Let_def number_internal_snd)
  qed
qed

lemma serialize_roundtrip:
  assumes "full t" and "\<forall>a\<in>set (get_leaf t). \<exists>v. a = Some v \<and> 0 \<le> v \<and> v < 256"
    and "0 \<le> n" and "n + count_internal t \<le> 256"
  shows "\<exists>bs recs. tree_to_bytes (fst (number_internal t n)) = Inr bs
           \<and> bytes_to_nodes bs = Inr recs
           \<and> int (length recs) = count_internal t
           \<and> length bs = 4 * length recs
           \<and> (\<not> is_leaf t \<longrightarrow>
                (\<forall>pre post. int (length pre) = n \<longrightarrow>
                   generate_tree_general (pre @ recs @ post) (n + count_internal t - 1)
                   = Some (Inr (strip t))))"
  using assms
proof (induction t arbitrary: n)
  case Null
  then show ?case by simp
next
  case (HuffmanNode s l r k)
  show ?case
  proof (cases "l = Null \<and> r = Null")
    case True
    then show ?thesis by simp
  next
    case False
    let ?cl = "count_internal l" and ?cr = "count_internal r"
    have s: "s = None" and fl: "full l" and fr: "full r"
      using HuffmanNode.prems(1) False by simp_all
    have nl: "l \<noteq> Null" and nr: "r \<noteq> Null"
      using full_not_Null fl fr by blast+
    have cl: "0 \<le> ?cl" and cr: "0 \<le> ?cr" by (rule count_internal_nonneg)+
    have ct: "count_internal (HuffmanNode s l r k) = 1 + ?cl + ?cr"
      using False by simp
    have vl: "\<forall>a\<in>set (get_leaf l). \<exists>v. a = Some v \<and> 0 \<le> v \<and> v < 256"
      and vr: "\<forall>a\<in>set (get_leaf r). \<exists>v. a = Some v \<and> 0 \<le> v \<and> v < 256"
      using HuffmanNode.prems(2) False by auto
    have b1: "n + ?cl \<le> 256" and b2: "0 \<le> n + ?cl" and b3: "n + ?cl + ?cr \<le> 256"
      using HuffmanNode.prems(3,4) cl cr ct by simp_all
    obtain bsl recsl where L: "tree_to_bytes (fst (number_internal l n)) = Inr bsl"
        "bytes_to_nodes bsl = Inr recsl" "int (length recsl) = ?cl" "length bsl = 4 * length recsl"
        "\<not> is_leaf l \<Longrightarrow> int (length pre) = n \<Longrightarrow>
           generate_tree_general (pre @ recsl @ post) (n + ?cl - 1) = Some (Inr (strip l))"
      for pre post
      using HuffmanNode.IH(1) [OF fl vl HuffmanNode.prems(3) b1] by blast
    obtain bsr recsr where R: "tree_to_bytes (fst (number_internal r (n + ?cl))) = Inr bsr"
        "bytes_to_nodes bsr = Inr recsr" "int (length recsr) = ?cr" "length bsr = 4 * length recsr"
        "\<not> is_leaf r \<Longrightarrow> int (length pre) = n + ?cl \<Longrightarrow>
           generate_tree_general (pre @ recsr @ post) (n + ?cl + ?cr - 1) = Some (Inr (strip r))"
      for pre post
      using HuffmanNode.IH(2) [OF fr vr b2] b3 by (auto simp: add.assoc)
    obtain tyl dtl where CL: "child_record (fst (number_internal l n)) = [Some tyl, Some dtl]"
        "0 \<le> dtl" "dtl < 256"
        "if is_leaf l then tyl = 0 \<and> strip l = HuffmanNode (Some dtl) Null Null None
         else tyl = 1 \<and> dtl = n + ?cl - 1"
      using child_record_numbered [OF fl vl HuffmanNode.prems(3) b1] by blast
    obtain tyr dtr where CR: "child_record (fst (number_internal r (n + ?cl))) = [Some tyr, Some dtr]"
        "0 \<le> dtr" "dtr < 256"
        "if is_leaf r then tyr = 0 \<and> strip r = HuffmanNode (Some dtr) Null Null None
         else tyr = 1 \<and> dtr = n + ?cl + ?cr - 1"
      using child_record_numbered [OF fr vr b2] b3 by (auto simp: add.assoc)
    have tyl: "0 \<le> tyl \<and> tyl < 256" using CL(4) by (auto split: if_splits)
    have tyr: "0 \<le> tyr \<and> tyr < 256" using CR(4) by (auto split: if_splits)
    define rc where "rc = \<lparr>l_type = tyl, l_data = dtl, r_type = tyr, r_data = dtr\<rparr>"
    have num: "fst (number_internal (HuffmanNode s l r k) n)
        = HuffmanNode s (fst (number_internal l n)) (fst (number_internal r (n + ?cl)))
            (Some (n + ?cl + ?cr))"
      using False by (simp add: split_beta Let_def number_internal_snd)
    have by4: "bytes [Some tyl, Some dtl, Some tyr, Some dtr] = Inr [tyl, dtl, tyr, dtr]"
      using tyl tyr CL(2,3) CR(2,3) by simp
    have tb: "tree_to_bytes (fst (number_internal (HuffmanNode s l r k) n))
        = Inr (bsl @ bsr @ [tyl, dtl, tyr, dtr])"
      unfolding num using nl nr L(1) R(1) CL(1) CR(1) by4 by simp
    have "bytes_to_nodes [tyl, dtl, tyr, dtr] = Inr [rc]"
      by (simp add: rc_def)
    then have bn: "bytes_to_nodes (bsl @ bsr @ [tyl, dtl, tyr, dtr]) = Inr (recsl @ recsr @ [rc])"
      using L(2) R(2) by (intro bytes_to_nodes_append)
    have len: "int (length (recsl @ recsr @ [rc])) = count_internal (HuffmanNode s l r k)"
      using L(3) R(3) ct by simp
    have len4: "length (bsl @ bsr @ [tyl, dtl, tyr, dtr]) = 4 * length (recsl @ recsr @ [rc])"
      using L(4) R(4) by simp
    have gen: "generate_tree_general (pre @ (recsl @ recsr @ [rc]) @ post)
                 (n + count_internal (HuffmanNode s l r k) - 1)
               = Some (Inr (strip (HuffmanNode s l r k)))"
      if pre: "int (length pre) = n" for pre post
    proof -
      let ?nodes = "pre @ (recsl @ recsr @ [rc]) @ post"
      have ix: "n + count_internal (HuffmanNode s l r k) - 1 = n + ?cl + ?cr"
        using ct by simp
      have "?nodes = (pre @ recsl @ recsr) @ rc # post" by simp
      moreover have "int (length (pre @ recsl @ recsr)) = n + ?cl + ?cr"
        using pre L(3) R(3) by simp
      ultimately have pi: "py_index ?nodes (n + ?cl + ?cr) = Inr rc"
        using py_index_mid by metis
      have gl: "(if l_type rc = 0 then Some (Inr (HuffmanNode (Some (l_data rc)) Null Null None))
          else if l_type rc = 1 then generate_tree_general ?nodes (l_data rc)
          else Some (Inr Null)) = Some (Inr (strip l))"
      proof (cases "is_leaf l")
        case True
        then show ?thesis using CL(4) by (simp add: rc_def)
      next
        case False
        have "generate_tree_general (pre @ recsl @ (recsr @ [rc] @ post)) (n + ?cl - 1)
              = Some (Inr (strip l))"
          using L(5) [OF False pre] .
        then show ?thesis using False CL(4) by (simp add: rc_def)
      qed
      have gr: "(if r_type rc = 0 then Some (Inr (HuffmanNode (Some (r_data rc)) Null Null None))
          else if r_type rc = 1 then generate_tree_general ?nodes (r_data rc)
          else Some (Inr Null)) = Some (Inr (strip r))"
      proof (cases "is_leaf r")
        case True
        then show ?thesis using CR(4) by (simp add: rc_def)
      next
        case False
        have "int (length (pre @ recsl)) = n + ?cl" using pre L(3) by simp
        then have "generate_tree_general ((pre @ recsl) @ recsr @ ([rc] @ post)) (n + ?cl + ?cr - 1)
              = Some (Inr (strip r))"
          using R(5) [OF False] by blast
        then show ?thesis using False CR(4) by (simp add: rc_def)
      qed
      show ?thesis
        unfolding ix using generate_node [OF pi gl gr] s by simp
    qed
    show ?thesis
      using tb bn len len4 gen by blast
  qed
qed

section \<open>The round trip of compress and uncompress\<close>

lemma set_update_subset: "set (AList.update k v al) \<subseteq> insert (k, v) (set al)"
  by (induction al) auto

lemma make_freq_dict_loop_props:
  "distinct (map fst dic) \<Longrightarrow> \<forall>p\<in>set dic. 0 < snd p
   \<Longrightarrow> distinct (map fst (make_freq_dict_loop dic text))
       \<and> fst ` set (make_freq_dict_loop dic text) = fst ` set dic \<union> set text
       \<and> (\<forall>p\<in>set (make_freq_dict_loop dic text). 0 < snd p)"
proof (induction "text" arbitrary: dic)
  case Nil
  then show ?case by simp
next
  case (Cons cha rest)
  let ?d = "case map_of dic cha of None \<Rightarrow> AList.update cha 1 dic
            | Some c \<Rightarrow> AList.update cha (c + 1) dic"
  have d: "distinct (map fst ?d)"
    using Cons.prems(1) by (auto simp: distinct_update split: option.splits)
  have k: "fst ` set ?d = insert cha (fst ` set dic)"
    by (auto simp: dom_update split: option.splits)
  have p: "\<forall>p\<in>set ?d. 0 < snd p"
  proof (cases "map_of dic cha")
    case None
    then show ?thesis using Cons.prems(2) set_update_subset [of cha 1 dic] by auto
  next
    case (Some c)
    then have "(cha, c) \<in> set dic" by (rule map_of_SomeD)
    then have "0 < c" using Cons.prems(2) by auto
    then show ?thesis using Some Cons.prems(2) set_update_subset [of cha "c + 1" dic] by auto
  qed
  show ?case using Cons.IH [OF d p] k by simp
qed

lemma make_freq_dict_props:
  "distinct (map fst (make_freq_dict text))"
  "fst ` set (make_freq_dict text) = set text"
  "\<forall>p\<in>set (make_freq_dict text). 0 < snd p"
  using make_freq_dict_loop_props [of "[]" "text"] by (simp_all add: make_freq_dict_def)

lemma get_leaf_number_internal [simp]: "get_leaf (fst (number_internal t n)) = get_leaf t"
  by (induction t arbitrary: n) (simp_all add: split_beta Let_def)

lemma contains_number_internal [simp]: "contains (fst (number_internal t n)) a = contains t a"
  by (induction t arbitrary: n) (simp_all add: split_beta Let_def)

lemma get_path_number_internal [simp]: "get_path (fst (number_internal t n)) a = get_path t a"
  by (induction t arbitrary: n) (simp_all add: split_beta Let_def)

lemma strip_Null [simp]: "strip t = Null \<longleftrightarrow> t = Null"
  by (cases t) simp_all

lemma is_leaf_strip [simp]: "is_leaf (strip t) = is_leaf t"
  by (cases t) simp_all

lemma get_leaf_strip [simp]: "get_leaf (strip t) = get_leaf t"
  by (induction t) simp_all

lemma contains_strip [simp]: "contains (strip t) a = contains t a"
  by (induction t) simp_all

lemma get_path_strip [simp]: "get_path (strip t) a = get_path t a"
  by (induction t) simp_all

lemma full_strip [simp]: "full (strip t) = full t"
  by (induction t) simp_all

lemma full_count: "full t \<Longrightarrow> int (length (get_leaf t)) = count_internal t + 1"
  by (induction t) (auto split: if_splits)

lemma get_codes_number_nodes: "get_codes (number_nodes t) = get_codes t"
  by (simp add: get_codes_def number_nodes_def)

lemma distinct_foldl_update:
  "distinct (map fst d) \<Longrightarrow> distinct (map fst (foldl (\<lambda>dic a. AList.update a (f a) dic) d xs))"
  by (induction xs arbitrary: d) (simp_all add: distinct_update)

lemma map_of_get_codes:
  "a \<in> set (get_leaf t) \<Longrightarrow> map_of (get_codes t) a = Some (get_path t a)"
proof -
  assume "a \<in> set (get_leaf t)"
  then have "(a, get_path t a) \<in> set (get_codes t)"
    by (simp add: set_get_codes)
  moreover have "distinct (map fst (get_codes t))"
    unfolding get_codes_def by (rule distinct_foldl_update) simp
  ultimately show ?thesis by (rule map_of_is_SomeI [rotated])
qed

lemma size_bytes_roundtrip:
  assumes "0 \<le> n" and "n < 2 ^ 32"
  shows "\<exists>b3. size_to_bytes n = Inr b3 \<and> length b3 = 4 \<and> bytes_to_size b3 = n"
proof -
  define a where "a = n div 256"
  define b where "b = a div 256"
  define c where "c = b div 256"
  have 1: "n mod 256 + 256 * a = n" by (simp add: a_def)
  have 2: "a mod 256 + 256 * b = a" by (simp add: b_def)
  have 3: "b mod 256 + 256 * c = b" by (simp add: c_def)
  have b_eq: "b = n div 65536"
    unfolding b_def a_def using zdiv_zmult2_eq [of 256 n 256] by simp
  have c_eq: "c = n div 16777216"
    unfolding c_def b_eq using zdiv_zmult2_eq [of 256 n 65536] by simp
  have "n < 16777216 * 256" using assms(2) by simp
  then have "n div 16777216 < 256" by linarith
  then have "c < 256" unfolding c_eq .
  moreover have "0 \<le> c" unfolding c_eq using assms(1) by simp
  ultimately have 4: "c mod 256 = c" by simp
  have e: "n mod 256 + 256 * (a mod 256 + 256 * (b mod 256 + 256 * (c mod 256 + 256 * 0))) = n"
    by (simp only: 4 3 2 1 add_0_right mult_zero_right)
  have bs: "bytes_to_size [n mod 256, a mod 256, b mod 256, c mod 256] = n"
    by (simp only: bytes_to_size.simps e)
  have sb: "size_to_bytes n = Inr [n mod 256, a mod 256, b mod 256, c mod 256]"
    unfolding a_def b_eq c_eq size_to_bytes_def using assms by (simp only: if_True simp_thms)
  show ?thesis
  proof (intro exI conjI)
    show "size_to_bytes n = Inr [n mod 256, a mod 256, b mod 256, c mod 256]" by (rule sb)
    show "length [n mod 256, a mod 256, b mod 256, c mod 256] = 4" by simp
    show "bytes_to_size [n mod 256, a mod 256, b mod 256, c mod 256] = n" by (rule bs)
  qed
qed

lemma avg_length_loop_ok:
  assumes "\<forall>p\<in>set freq. 0 < snd p"
  shows "\<forall>p\<in>set cod. \<exists>k. fst p = Some k \<and> k \<in> fst ` set freq
    \<Longrightarrow> \<exists>lst' i'. avg_length_loop freq cod lst i = Inr (lst', i') \<and> i \<le> i' \<and> (cod \<noteq> [] \<longrightarrow> i < i')"
proof (induction cod arbitrary: lst i)
  case Nil
  then show ?case by simp
next
  case (Cons p cod)
  obtain key code where p: "p = (key, code)" by (cases p)
  obtain k where k: "key = Some k" "k \<in> fst ` set freq"
    using Cons.prems p by auto
  then obtain v where v: "map_of freq k = Some v"
    by (metis map_of_eq_None_iff not_Some_eq)
  then have "(k, v) \<in> set freq" by (rule map_of_SomeD)
  then have pos: "0 < v" using assms by auto
  have fl: "freq_lookup freq key = Inr v"
    using k v by (simp add: freq_lookup_def)
  obtain lst' i' where "avg_length_loop freq cod (lst @ [int (length code) * v]) (i + v) = Inr (lst', i')"
      "i + v \<le> i'"
    using Cons.IH [of "lst @ [int (length code) * v]" "i + v"] Cons.prems by auto
  then show ?case using p fl pos by auto
qed

lemma avg_length_ok:
  assumes "\<forall>p\<in>set freq. 0 < snd p" and "get_codes tree \<noteq> []"
    and "\<forall>p\<in>set (get_codes tree). \<exists>k. fst p = Some k \<and> k \<in> fst ` set freq"
  shows "\<exists>q. avg_length tree freq = Inr q"
proof -
  obtain lst' i' where "avg_length_loop freq (get_codes tree) [] 0 = Inr (lst', i')" "0 < i'"
    using avg_length_loop_ok [OF assms(1) assms(3), of "[]" 0] assms(2) by auto
  then show ?thesis by (simp add: avg_length_def)
qed

lemma huffman_tree_of_text:
  assumes "\<forall>b\<in>set text. 0 \<le> b \<and> b < 256" and "2 \<le> card (set text)"
  shows "\<exists>t. huffman_tree (make_freq_dict text) = Inr t \<and> full t \<and> \<not> is_leaf t
           \<and> set (get_leaf t) = Some ` set text
           \<and> 1 \<le> count_internal t \<and> count_internal t \<le> 255"
proof -
  let ?f = "make_freq_dict text"
  have d: "distinct (map fst ?f)" and k: "fst ` set ?f = set text"
    by (rule make_freq_dict_props)+
  have "card (set (map fst ?f)) = length (map fst ?f)"
    using d by (rule distinct_card)
  then have len: "length ?f = card (set text)"
    using k by simp
  then have "2 \<le> length ?f" using assms(2) by simp
  then obtain t where t: "huffman_tree ?f = Inr t" "full t"
      "mset (get_leaf t) = mset (map (\<lambda>p. Some (fst p)) ?f)"
    using huffman_tree_full by blast
  have sl: "set (get_leaf t) = Some ` set text"
    using mset_eq_setD [OF t(3)] k by (simp add: image_image [symmetric])
  have ll: "length (get_leaf t) = card (set text)"
    using mset_eq_length [OF t(3)] len by simp
  have "set text \<subseteq> {0..<256}" using assms(1) by auto
  then have "card (set text) \<le> card {0..<256::int}"
    by (intro card_mono) simp_all
  then have c256: "card (set text) \<le> 256" by simp
  have cnt: "count_internal t = int (card (set text)) - 1"
    using full_count [OF t(2)] ll by simp
  have nl: "\<not> is_leaf t"
  proof
    assume "is_leaf t"
    then obtain s k where "t = HuffmanNode s Null Null k" by (cases t) auto
    then have "length (get_leaf t) = 1" by simp
    then show False using ll assms(2) by simp
  qed
  show ?thesis using t(1,2) nl sl cnt c256 assms(2) by auto
qed

lemma num_nodes_to_bytes_number:
  "t \<noteq> Null \<Longrightarrow> number t = Some m \<Longrightarrow> num_nodes_to_bytes t = bytes [Some (m + 1)]"
  by (cases t) auto

text \<open>
  What \<open>compress\<close> does up to the size field, for a text of valid bytes with at least
  two distinct values: the tree is a code tree over the bytes of the text, its
  serialization reads back as the same tree, and nothing raises before \<open>size_to_bytes\<close>.
\<close>

lemma compress_front:
  assumes "\<forall>b\<in>set text. 0 \<le> b \<and> b < 256" and "2 \<le> card (set text)"
  shows "\<exists>t bs recs. full t \<and> \<not> is_leaf t \<and> set (get_leaf t) = Some ` set text
           \<and> bytes_to_nodes bs = Inr recs
           \<and> int (length recs) = count_internal t \<and> length bs = 4 * length recs
           \<and> generate_tree_general recs (count_internal t - 1) = Some (Inr (strip t))
           \<and> compress text
             = (case size_to_bytes (int (length text)) of
                  Inl e \<Rightarrow> Inl e
                | Inr b3 \<Rightarrow>
                    (case generate_compressed text (get_codes t) of
                       Inl e \<Rightarrow> Inl e
                     | Inr b4 \<Rightarrow> Inr (count_internal t # bs @ b3 @ b4)))"
proof -
  let ?f = "make_freq_dict text"
  obtain t where t: "huffman_tree ?f = Inr t" "full t" "\<not> is_leaf t"
      "set (get_leaf t) = Some ` set text" "1 \<le> count_internal t" "count_internal t \<le> 255"
    using huffman_tree_of_text [OF assms(1,2)] by blast
  define N where "N = count_internal t"
  define tn where "tn = number_nodes t"
  have tnn: "t \<noteq> Null" using full_not_Null [OF t(2)] .
  have ne: "text \<noteq> []" using assms(2) by auto
  have valid: "\<forall>a\<in>set (get_leaf t). \<exists>v. a = Some v \<and> 0 \<le> v \<and> v < 256"
    using t(4) assms(1) by auto
  have "0 + count_internal t \<le> 256" using t(6) by simp
  then obtain bs recs where S: "tree_to_bytes tn = Inr bs" "bytes_to_nodes bs = Inr recs"
      "int (length recs) = N" "length bs = 4 * length recs"
      "\<forall>pre post. int (length pre) = 0 \<longrightarrow>
         generate_tree_general (pre @ recs @ post) (0 + N - 1) = Some (Inr (strip t))"
    using serialize_roundtrip [OF t(2) valid, of 0] t(3)
    unfolding N_def tn_def number_nodes_def by blast
  have "generate_tree_general ([] @ recs @ []) (0 + N - 1) = Some (Inr (strip t))"
    using S(5) by (metis list.size(3) of_nat_0)
  then have gen: "generate_tree_general recs (N - 1) = Some (Inr (strip t))"
    by simp
  have keys: "\<forall>p\<in>set (get_codes tn). \<exists>k. fst p = Some k \<and> k \<in> fst ` set ?f"
    unfolding tn_def get_codes_number_nodes
    using t(4) by (auto simp: set_get_codes make_freq_dict_props(2))
  have "set (get_codes tn) \<noteq> {}"
    unfolding tn_def get_codes_number_nodes using t(4) ne by (simp add: set_get_codes)
  then have cne: "get_codes tn \<noteq> []" by auto
  obtain q where avg: "avg_length tn ?f = Inr q"
    using avg_length_ok [OF make_freq_dict_props(3) cne keys] by blast
  have "number tn = Some (0 + count_internal t - 1)"
    unfolding tn_def number_nodes_def by (rule number_internal_root [OF tnn t(3)])
  moreover have "tn \<noteq> Null" unfolding tn_def number_nodes_def using tnn by simp
  ultimately have "num_nodes_to_bytes tn = bytes [Some (0 + count_internal t - 1 + 1)]"
    by (intro num_nodes_to_bytes_number)
  then have nn: "num_nodes_to_bytes tn = Inr [N]"
    using t(5,6) by (simp add: N_def)
  have comp: "compress text
      = (case size_to_bytes (int (length text)) of
           Inl e \<Rightarrow> Inl e
         | Inr b3 \<Rightarrow>
             (case generate_compressed text (get_codes t) of
                Inl e \<Rightarrow> Inl e
              | Inr b4 \<Rightarrow> Inr (N # bs @ b3 @ b4)))"
    using avg nn S(1) unfolding tn_def
    by (simp add: compress_def Let_def t(1) split: sum.splits)
  show ?thesis
    using t(2,3,4) S(2,3,4) gen comp unfolding N_def by blast
qed

text \<open>
  Claim C1, as stated, fails: the size of the input is written in four bytes, and for an
  input of \<open>2^32\<close> bytes or more \<open>size.to_bytes(4, "little")\<close> raises OverflowError. The
  input here is \<open>2^32\<close> zero bytes followed by a byte 1.
\<close>

theorem compress_size_overflow_counterexample:
  "compress (replicate 4294967296 0 @ [1]) = Inl OverflowError"
proof -
  let ?text = "replicate 4294967296 0 @ [1 :: int]"
  have s: "set ?text = {0, 1}" by auto
  have 1: "\<forall>b\<in>set ?text. 0 \<le> b \<and> b < 256" unfolding s by simp
  have 2: "2 \<le> card (set ?text)" unfolding s by simp
  have "size_to_bytes (int (length ?text)) = Inl OverflowError"
    by (simp add: size_to_bytes_def)
  then show ?thesis using compress_front [OF 1 2] by auto
qed

text \<open>
  Claim C1, amended. For every byte sequence with at least two distinct byte values and
  fewer than \<open>2^32\<close> bytes, \<open>compress\<close> succeeds and \<open>uncompress\<close> of its output returns
  and yields exactly the bytes that went in.
\<close>

theorem compress_uncompress_round_trip:
  assumes "\<forall>b\<in>set text. 0 \<le> b \<and> b < 256" and "2 \<le> card (set text)"
    and "int (length text) < 2 ^ 32"
  shows "\<exists>out. compress text = Inr out \<and> uncompress out = Some (Inr text)"
proof -
  obtain t bs recs where t: "full t" "\<not> is_leaf t" "set (get_leaf t) = Some ` set text"
      and S: "bytes_to_nodes bs = Inr recs" "int (length recs) = count_internal t"
        "length bs = 4 * length recs"
      and gen: "generate_tree_general recs (count_internal t - 1) = Some (Inr (strip t))"
      and front: "compress text
             = (case size_to_bytes (int (length text)) of
                  Inl e \<Rightarrow> Inl e
                | Inr b3 \<Rightarrow>
                    (case generate_compressed text (get_codes t) of
                       Inl e \<Rightarrow> Inl e
                     | Inr b4 \<Rightarrow> Inr (count_internal t # bs @ b3 @ b4)))"
    using compress_front [OF assms(1,2)] by blast
  define N where "N = count_internal t"
  define code where "code = (\<lambda>x. get_path t (Some x))"
  have ne: "text \<noteq> []" using assms(2) by auto
  have mem: "\<forall>x\<in>set text. Some x \<in> set (get_leaf t)"
    using t(3) by simp
  obtain b3 where b3: "size_to_bytes (int (length text)) = Inr b3" "length b3 = 4"
      "bytes_to_size b3 = int (length text)"
    using size_bytes_roundtrip [of "int (length text)"] assms(3) by auto
  have c1: "\<forall>i\<in>set text. map_of (get_codes t) (Some i) = Some (code i)"
    using mem by (simp add: map_of_get_codes code_def)
  have c2: "\<forall>i\<in>set text. set (code i) \<subseteq> {CHR ''0'', CHR ''1''}"
    using mem get_path_bits [OF t(1)] by (simp add: code_def)
  obtain b4 where b4: "generate_compressed text (get_codes t) = Inr b4"
      "concat (map byte_to_bits b4)
       = concat (map code text) @ replicate (8 - length (concat (map code text)) mod 8) (CHR ''0'')"
    using generate_compressed_bits [OF c1 c2] by blast
  have comp: "compress text = Inr (N # bs @ b3 @ b4)"
    unfolding front N_def using b3(1) b4(1) by simp
  have "nat (N * 4) = length bs" using S(2,3) unfolding N_def by auto
  then have tk: "take (nat (N * 4)) (bs @ b3 @ b4) = bs"
    and dr: "drop (nat (N * 4)) (bs @ b3 @ b4) = b3 @ b4"
    by simp_all
  have fs: "full (strip t)" and ls: "\<not> is_leaf (strip t)"
    using t(1,2) by simp_all
  have ms: "\<forall>x\<in>set text. Some x \<in> set (get_leaf (strip t))"
    using mem by simp
  have "decode_loop (strip t) (strip t) [] (int (length text))
          (concat (map (\<lambda>x. get_path (strip t) (Some x)) text)
           @ replicate (8 - length (concat (map code text)) mod 8) (CHR ''0''))
        = bytes ([] @ map Some text)"
    by (rule decode_text [OF fs ls ne ms]) simp
  then have "generate_uncompressed (strip t) b4 (int (length text)) = bytes (map Some text)"
    unfolding generate_uncompressed_def b4(2) by (simp add: code_def)
  then have dec: "generate_uncompressed (strip t) b4 (int (length text)) = Inr text"
    using bytes_map_Some [OF assms(1)] by simp
  have "uncompress (N # bs @ b3 @ b4) = Some (Inr text)"
    unfolding uncompress_def using tk dr S(1) gen b3(2,3) dec by (simp add: Let_def N_def)
  then show ?thesis using comp by blast
qed

theorem compress_uncompress_round_trip_witness:
  "2 \<le> card (set [1, 2, 1, 0, 2 :: int]) \<and> int (length [1, 2, 1, 0, 2 :: int]) < 2 ^ 32
   \<and> compress [1, 2, 1, 0, 2] = Inr [2, 0, 0, 0, 1, 0, 2, 1, 0, 5, 0, 0, 0, 220, 0]
   \<and> uncompress [2, 0, 0, 0, 1, 0, 2, 1, 0, 5, 0, 0, 0, 220, 0] = Some (Inr [1, 2, 1, 0, 2])"
proof -
  have 1: "\<forall>b\<in>set [1, 2, 1, 0, 2 :: int]. 0 \<le> b \<and> b < 256" by simp
  have "set [1, 2, 1, 0, 2 :: int] = {0, 1, 2}" by auto
  then have 2: "2 \<le> card (set [1, 2, 1, 0, 2 :: int])" by simp
  have 3: "int (length [1, 2, 1, 0, 2 :: int]) < 2 ^ 32" by simp
  have c: "compress [1, 2, 1, 0, 2] = Inr [2, 0, 0, 0, 1, 0, 2, 1, 0, 5, 0, 0, 0, 220, 0]"
    by code_simp
  obtain out where "compress [1, 2, 1, 0, 2] = Inr out"
      "uncompress out = Some (Inr [1, 2, 1, 0, 2])"
    using compress_uncompress_round_trip [OF 1 2 3] by blast
  then show ?thesis using 2 3 c by simp
qed

end
